theory Spec2Isabelle
  imports Main
begin

section \<open>JavaScript values\<close>

text \<open>
  The values that flow through \<^verbatim>\<open>src/utils.js\<close>: raw data items, paths, filter
  values. An object is the association list of its own properties (keys unique); what
  it inherits from its prototype chain is not part of the value and is taken from the
  environment below. Numbers are the integers (fractions, \<^verbatim>\<open>NaN\<close> and the
  infinities are outside the model); a function value is known by its source text,
  which is what \<^verbatim>\<open>String(fn)\<close> yields.
\<close>

datatype jsval =
    Undefined
  | Null
  | Bool bool
  | Num int
  | Str string
  | Fn string
  | Arr "jsval list"
  | Obj "(string \<times> jsval) list"

datatype error = TypeError | Error string

text \<open>
  What a result depends on besides the values themselves, as parameters:
  \<open>inherited env v k\<close> is what reading the property \<open>k\<close> of \<open>v\<close> yields when \<open>v\<close>
  has no own property \<open>k\<close>, the value found along the prototype chain of \<open>v\<close>
  (\<^verbatim>\<open>undefined\<close> when there is none; for a plain object and the key
  \<^verbatim>\<open>constructor\<close>, the function \<^verbatim>\<open>Object\<close>); \<open>exponent_form env n\<close> is what
  \<^verbatim>\<open>String(n)\<close> yields for a number of magnitude \<open>10\<^sup>2\<^sup>1\<close> or more, which is
  written in exponent notation, with the digits of its floating-point representation.
\<close>

record js_env =
  inherited :: "jsval \<Rightarrow> string \<Rightarrow> jsval"
  exponent_form :: "int \<Rightarrow> string"

text \<open>JavaScript truthiness: what \<^verbatim>\<open>if (v)\<close>, \<^verbatim>\<open>!v\<close> and \<^verbatim>\<open>a || b\<close> test.\<close>

fun truthy :: "jsval \<Rightarrow> bool" where
  "truthy Undefined = False"
| "truthy Null = False"
| "truthy (Bool b) = b"
| "truthy (Num n) = (n \<noteq> 0)"
| "truthy (Str s) = (s \<noteq> [])"
| "truthy (Fn f) = True"
| "truthy (Arr xs) = True"
| "truthy (Obj ps) = True"

definition js_or :: "jsval \<Rightarrow> jsval \<Rightarrow> jsval" where
  "js_or a b = (if truthy a then a else b)"

definition js_and :: "jsval \<Rightarrow> jsval \<Rightarrow> jsval" where
  "js_and a b = (if truthy a then b else a)"

subsection \<open>Decimal numerals and strings\<close>

definition digit_char :: "nat \<Rightarrow> char" where
  "digit_char d = ''0123456789'' ! d"

fun string_of_nat :: "nat \<Rightarrow> string" where
  "string_of_nat n =
     (if n < 10 then [digit_char n]
      else string_of_nat (n div 10) @ [digit_char (n mod 10)])"

declare string_of_nat.simps [simp del]

definition string_of_int :: "int \<Rightarrow> string" where
  "string_of_int i = (if i < 0 then CHR ''-'' # string_of_nat (nat (- i)) else string_of_nat (nat i))"

definition is_digit :: "char \<Rightarrow> bool" where
  "is_digit c = ((48::nat) \<le> of_char c \<and> (of_char c :: nat) \<le> 57)"

definition nat_of_digits :: "string \<Rightarrow> nat" where
  "nat_of_digits s = foldl (\<lambda>n c. 10 * n + ((of_char c :: nat) - 48)) 0 s"

text \<open>
  An array index is a property key that is the canonical decimal numeral of a number:
  \<^verbatim>\<open>"0"\<close>, \<^verbatim>\<open>"12"\<close>, but not \<^verbatim>\<open>"01"\<close> or \<^verbatim>\<open>""\<close>.
\<close>

definition array_index :: "string \<Rightarrow> nat option" where
  "array_index k =
     (if k \<noteq> [] \<and> list_all is_digit k \<and> (k = ''0'' \<or> hd k \<noteq> CHR ''0'')
      then Some (nat_of_digits k) else None)"

text \<open>\<^verbatim>\<open>s.split(c)\<close>: the empty string splits into one empty part.\<close>

fun split_on :: "char \<Rightarrow> string \<Rightarrow> string list" where
  "split_on c [] = [[]]"
| "split_on c (x # xs) =
     (if x = c then [] # split_on c xs
      else (x # hd (split_on c xs)) # tl (split_on c xs))"

text \<open>\<^verbatim>\<open>parts.join(c)\<close>.\<close>

fun join_with :: "char \<Rightarrow> string list \<Rightarrow> string" where
  "join_with c [] = []"
| "join_with c [p] = p"
| "join_with c (p # q # ps) = p @ c # join_with c (q # ps)"

text \<open>
  \<^verbatim>\<open>s.replace('.', '_')\<close> with a string pattern replaces the first occurrence only.
\<close>

fun replace_first :: "char \<Rightarrow> char \<Rightarrow> string \<Rightarrow> string" where
  "replace_first a b [] = []"
| "replace_first a b (x # xs) = (if x = a then b # xs else x # replace_first a b xs)"

text \<open>\<^verbatim>\<open>s.replace(/a/g, r)\<close> for a one-character pattern.\<close>

definition replace_all :: "char \<Rightarrow> string \<Rightarrow> string \<Rightarrow> string" where
  "replace_all a r s = concat (map (\<lambda>x. if x = a then r else [x]) s)"

text \<open>
  \<^verbatim>\<open>String(v)\<close>. A number below \<open>10\<^sup>2\<^sup>1\<close> in magnitude is written in decimal digits,
  a larger one in exponent notation; an array is its elements joined by commas, with
  \<^verbatim>\<open>null\<close> and \<^verbatim>\<open>undefined\<close> elements written as the empty string; an object is
  \<^verbatim>\<open>[object Object]\<close> (it is taken not to define a conversion of its own).
\<close>

fun js_String :: "js_env \<Rightarrow> jsval \<Rightarrow> string" where
  "js_String env Undefined = ''undefined''"
| "js_String env Null = ''null''"
| "js_String env (Bool b) = (if b then ''true'' else ''false'')"
| "js_String env (Num n) =
     (if \<bar>n\<bar> < 1000000000000000000000 then string_of_int n else exponent_form env n)"
| "js_String env (Str s) = s"
| "js_String env (Fn src) = src"
| "js_String env (Obj ps) = ''[object Object]''"
| "js_String env (Arr xs) =
     join_with CHR '',''
       (map (\<lambda>x. if x = Null \<or> x = Undefined then [] else js_String env x) xs)"

subsection \<open>Property access\<close>

text \<open>
  \<^verbatim>\<open>cursor[key]\<close>: reading a property of \<^verbatim>\<open>undefined\<close> or \<^verbatim>\<open>null\<close> raises a
  TypeError. An object has its own properties, an array and a string have \<^verbatim>\<open>length\<close>
  and their indices; every other key, for every value, reads what the value inherits.
\<close>

fun getProp :: "js_env \<Rightarrow> jsval \<Rightarrow> string \<Rightarrow> error + jsval" where
  "getProp env Undefined k = Inl TypeError"
| "getProp env Null k = Inl TypeError"
| "getProp env (Obj ps) k =
     (case map_of ps k of Some v \<Rightarrow> Inr v | None \<Rightarrow> Inr (inherited env (Obj ps) k))"
| "getProp env (Arr xs) k =
     (if k = ''length'' then Inr (Num (int (length xs)))
      else (case array_index k of
              Some i \<Rightarrow> if i < length xs then Inr (xs ! i) else Inr (inherited env (Arr xs) k)
            | None \<Rightarrow> Inr (inherited env (Arr xs) k)))"
| "getProp env (Str s) k =
     (if k = ''length'' then Inr (Num (int (length s)))
      else (case array_index k of
              Some i \<Rightarrow> if i < length s then Inr (Str [s ! i]) else Inr (inherited env (Str s) k)
            | None \<Rightarrow> Inr (inherited env (Str s) k)))"
| "getProp env (Bool b) k = Inr (inherited env (Bool b) k)"
| "getProp env (Num n) k = Inr (inherited env (Num n) k)"
| "getProp env (Fn f) k = Inr (inherited env (Fn f) k)"

text \<open>
  For the examples: an environment in which no value inherits a property under any of
  the keys the examples read (the standard prototypes have none of them), and no
  number is large.
\<close>

definition bare_env :: js_env where
  "bare_env = \<lparr>inherited = (\<lambda>v k. Undefined), exponent_form = (\<lambda>n. [])\<rparr>"

section \<open>shouldAutoRemoveFilter\<close>

text \<open>
  \<^verbatim>\<open>autoRemove ? autoRemove(value, column) : typeof value === 'undefined'\<close>.
  An absent predicate is \<open>None\<close>.
\<close>

definition shouldAutoRemoveFilter ::
    "(jsval \<Rightarrow> 'c \<Rightarrow> jsval) option \<Rightarrow> jsval \<Rightarrow> 'c \<Rightarrow> jsval" where
  "shouldAutoRemoveFilter autoRemove v column =
     (case autoRemove of
        Some f \<Rightarrow> f v column
      | None \<Rightarrow> Bool (v = Undefined))"

section \<open>getBy: the path resolver\<close>

text \<open>\<^verbatim>\<open>flattenDeep\<close>: the leaves of a nested array, left to right.\<close>

fun flattenDeep :: "jsval \<Rightarrow> jsval list" where
  "flattenDeep (Arr xs) = concat (map flattenDeep xs)"
| "flattenDeep v = [v]"

text \<open>
  \<open>makePathArray\<close>: every leaf of the path is written as a string and the first
  period of that string is replaced by an underscore; the parts are joined by periods,
  every \<^verbatim>\<open>[\<close> becomes a period and every \<^verbatim>\<open>]\<close> is deleted, and the result is split
  at the periods.
\<close>

definition makePathArray :: "js_env \<Rightarrow> jsval \<Rightarrow> string list" where
  "makePathArray env obj =
     split_on CHR ''.''
       (replace_all CHR '']'' []
         (replace_all CHR ''['' ''.''
           (join_with CHR ''.''
             (map (\<lambda>d. replace_first CHR ''.'' CHR ''_'' (js_String env d)) (flattenDeep obj)))))"

text \<open>
  The cache is keyed by the function itself for a function path and by
  \<^verbatim>\<open>JSON.stringify(path)\<close> otherwise. The JSON text is represented by the value it
  denotes: inside an array \<^verbatim>\<open>undefined\<close> and functions are written \<^verbatim>\<open>null\<close>.
\<close>

fun json_norm :: "jsval \<Rightarrow> jsval" where
  "json_norm (Arr xs) =
     Arr (map (\<lambda>x. case x of Undefined \<Rightarrow> Null | Fn f \<Rightarrow> Null | _ \<Rightarrow> json_norm x) xs)"
| "json_norm v = v"

datatype cache_key = KeyFn string | KeyJson jsval

definition cacheKey :: "jsval \<Rightarrow> cache_key" where
  "cacheKey path = (case path of Fn src \<Rightarrow> KeyFn src | _ \<Rightarrow> KeyJson (json_norm path))"

type_synonym pathObjCache = "cache_key \<rightharpoonup> string list"

text \<open>\<^verbatim>\<open>pathObj.reduce((cursor, pathPart) => cursor[pathPart], obj)\<close>.\<close>

fun reduce_path :: "js_env \<Rightarrow> string list \<Rightarrow> jsval \<Rightarrow> error + jsval" where
  "reduce_path env [] cursor = Inr cursor"
| "reduce_path env (pathPart # rest) cursor =
     (case getProp env cursor pathPart of
        Inl e \<Rightarrow> Inl e
      | Inr v \<Rightarrow> reduce_path env rest v)"

text \<open>
  \<open>getBy\<close> takes the process-wide cache and returns it updated. The only step that can
  raise, the reduction, runs inside \<^verbatim>\<open>try { ... } catch (e) {}\<close>, which leaves
  \<^verbatim>\<open>val\<close> undefined.
\<close>

definition getBy :: "js_env \<Rightarrow> pathObjCache \<Rightarrow> jsval \<Rightarrow> jsval \<Rightarrow> jsval \<Rightarrow> jsval \<times> pathObjCache" where
  "getBy env cache obj path def =
     (if \<not> truthy path then (obj, cache)
      else
        let (pathObj, cache') =
              (case cache (cacheKey path) of
                 Some cached \<Rightarrow> (cached, cache)
               | None \<Rightarrow> (makePathArray env path, cache(cacheKey path \<mapsto> makePathArray env path)));
            val = (case reduce_path env pathObj obj of Inl e \<Rightarrow> Undefined | Inr v \<Rightarrow> v)
        in (if val \<noteq> Undefined then val else def, cache'))"


text \<open>
  The paths the resolver is meant for: a string, a number, a function, or a (nested)
  array of string and number keys, the numbers below \<open>10\<^sup>2\<^sup>1\<close> in magnitude.
\<close>

fun key_elem :: "jsval \<Rightarrow> bool" where
  "key_elem (Str s) = True"
| "key_elem (Num n) = (\<bar>n\<bar> < 1000000000000000000000)"
| "key_elem (Arr xs) = list_all key_elem xs"
| "key_elem v = False"

definition key_path :: "jsval \<Rightarrow> bool" where
  "key_path path = (case path of Fn src \<Rightarrow> True | _ \<Rightarrow> key_elem path)"

text \<open>
  A cache is consistent when the entry of every such path is that path's parsed key
  sequence; the empty cache is, and \<open>getBy\<close> keeps it so.
\<close>

definition cache_ok :: "js_env \<Rightarrow> pathObjCache \<Rightarrow> bool" where
  "cache_ok env cache =
     (\<forall>path. key_path path \<longrightarrow>
        (case cache (cacheKey path) of None \<Rightarrow> True | Some ks \<Rightarrow> ks = makePathArray env path))"

text \<open>
  For the statements. What the claim calls the resolution of a key sequence: the value
  reached by reading the keys one after the other, starting at the object, and the
  default when a read raises or the value reached is \<^verbatim>\<open>undefined\<close>. A plain key is a
  string without period and bracket, or a number (below \<open>10\<^sup>2\<^sup>1\<close> in magnitude); the
  bracket notation of a key sequence is \<^verbatim>\<open>k[i1][i2]...\<close>.
\<close>

definition resolution :: "js_env \<Rightarrow> string list \<Rightarrow> jsval \<Rightarrow> jsval \<Rightarrow> jsval" where
  "resolution env ks obj def =
     (case reduce_path env ks obj of
        Inl e \<Rightarrow> def
      | Inr v \<Rightarrow> if v = Undefined then def else v)"

definition plain :: "string \<Rightarrow> bool" where
  "plain s = list_all (\<lambda>c. c \<noteq> CHR ''.'' \<and> c \<noteq> CHR ''['' \<and> c \<noteq> CHR '']'') s"

fun plain_key :: "jsval \<Rightarrow> bool" where
  "plain_key (Str s) = plain s"
| "plain_key (Num n) = (\<bar>n\<bar> < 1000000000000000000000)"
| "plain_key v = False"

definition bracketed :: "string \<Rightarrow> string list \<Rightarrow> string" where
  "bracketed k ixs = k @ concat (map (\<lambda>i. ''['' @ i @ '']'') ixs)"

section \<open>expandRows\<close>

text \<open>
  The rows the expansion plugin walks: a tree, each row with its sub-rows (absent for a
  row that never had any). \<open>isExpanded\<close> and \<open>canExpand\<close> are the two fields
  \<open>expandRows\<close> writes. The expansion state \<open>expanded\<close> is an object, given by its
  own properties.
\<close>

datatype row =
  Row (row_id: string) (original: jsval) (subRows: "row list option")
      (isExpanded: jsval) (canExpand: jsval)

record expand_options =
  manualExpandedKey :: string
  expanded :: "(string \<times> jsval) list"
  expandSubRows :: bool

text \<open>
  \<^verbatim>\<open>row.original && row.original[manualExpandedKey]\<close>: the property is read only of a
  truthy \<^verbatim>\<open>original\<close>, where reading it cannot raise (lemma \<open>getProp_truthy\<close>).
\<close>

definition manual_flag :: "js_env \<Rightarrow> jsval \<Rightarrow> string \<Rightarrow> jsval" where
  "manual_flag env orig k =
     (if truthy orig then (case getProp env orig k of Inr v \<Rightarrow> v | Inl e \<Rightarrow> Undefined) else orig)"

text \<open>
  \<^verbatim>\<open>expanded[row.id]\<close>: the state's own entry for the id, and without one what the
  state object inherits under that name.
\<close>

definition state_entry :: "js_env \<Rightarrow> (string \<times> jsval) list \<Rightarrow> string \<Rightarrow> jsval" where
  "state_entry env st i =
     (case map_of st i of Some v \<Rightarrow> v | None \<Rightarrow> inherited env (Obj st) i)"

text \<open>
  The value assigned to \<^verbatim>\<open>row.isExpanded\<close>:
  \<^verbatim>\<open>(row.original && row.original[manualExpandedKey]) || expanded[row.id]\<close>.
\<close>

definition expansion_of :: "js_env \<Rightarrow> expand_options \<Rightarrow> string \<Rightarrow> jsval \<Rightarrow> jsval" where
  "expansion_of env opts i orig =
     js_or (manual_flag env orig (manualExpandedKey opts)) (state_entry env (expanded opts) i)"

text \<open>
  \<open>handleRow\<close> writes the two flags on the row, pushes the row on \<^verbatim>\<open>expandedRows\<close>
  and, when \<^verbatim>\<open>expandSubRows && row.subRows && row.subRows.length && row.isExpanded\<close>,
  handles each sub-row in turn. The model returns the row as the walk leaves it (its
  flags written, its handled sub-rows in place) and the rows pushed while handling it,
  in push order; the array holds references, so each pushed row is read as the walk
  leaves it.
\<close>

fun handleRow :: "js_env \<Rightarrow> expand_options \<Rightarrow> row \<Rightarrow> row \<times> row list" where
  "handleRow env opts (Row i orig subs ie ce) =
     (let isExp = expansion_of env opts i orig;
          canExp = (case subs of None \<Rightarrow> Undefined | Some ss \<Rightarrow> Bool (ss \<noteq> []))
      in (case subs of
            None \<Rightarrow> (Row i orig None isExp canExp, [Row i orig None isExp canExp])
          | Some ss \<Rightarrow>
              (if expandSubRows opts \<and> ss \<noteq> [] \<and> truthy isExp
               then (let handled = map (handleRow env opts) ss
                     in (Row i orig (Some (map fst handled)) isExp canExp,
                         Row i orig (Some (map fst handled)) isExp canExp
                           # concat (map snd handled)))
               else (Row i orig (Some ss) isExp canExp, [Row i orig (Some ss) isExp canExp]))))"

definition expandRows :: "js_env \<Rightarrow> row list \<Rightarrow> expand_options \<Rightarrow> row list" where
  "expandRows env rows opts = concat (map (\<lambda>row. snd (handleRow env opts row)) rows)"

text \<open>
  For the statement of the ordering property: the pre-order walk of a whole row tree,
  each row with the list of its ancestors (nearest first); a row is shown when every
  ancestor of it is expanded; \<open>strip\<close> forgets the two flags throughout a row, so
  that rows can be compared for what they were before the walk.
\<close>

fun preorder :: "row list \<Rightarrow> row \<Rightarrow> (row list \<times> row) list" where
  "preorder anc (Row i orig subs ie ce) =
     (anc, Row i orig subs ie ce) #
     (case subs of None \<Rightarrow> []
      | Some ss \<Rightarrow> concat (map (preorder (Row i orig subs ie ce # anc)) ss))"

fun strip :: "row \<Rightarrow> row" where
  "strip (Row i orig subs ie ce) = Row i orig (map_option (map strip) subs) Undefined Undefined"


definition is_expanded :: "js_env \<Rightarrow> expand_options \<Rightarrow> row \<Rightarrow> bool" where
  "is_expanded env opts r = truthy (expansion_of env opts (row_id r) (original r))"

definition ancestors_expanded :: "js_env \<Rightarrow> expand_options \<Rightarrow> row list \<times> row \<Rightarrow> bool" where
  "ancestors_expanded env opts p = list_all (is_expanded env opts) (fst p)"

text \<open>The two flags of a row are the ones \<open>handleRow\<close> computes for it.\<close>

definition marked :: "js_env \<Rightarrow> expand_options \<Rightarrow> row \<Rightarrow> bool" where
  "marked env opts r =
     (isExpanded r = expansion_of env opts (row_id r) (original r)
      \<and> canExpand r = (case subRows r of None \<Rightarrow> Undefined | Some ss \<Rightarrow> Bool (ss \<noteq> [])))"


section \<open>makeHeaderGroups\<close>

text \<open>
  A column as the header-group builder sees it: its \<open>id\<close>, the \<open>parent\<close> link set by
  \<open>linkColumnStructure\<close> (one column's chain of parents is finite), and the fields
  the builder itself sets on the header cells it creates (\<open>originalId\<close>, \<open>headers\<close>,
  \<open>placeholderOf\<close>). Every other property of the column (\<open>Header\<close>, \<open>width\<close>,
  ...) is kept in \<open>col_props\<close>. The input columns have no \<open>headers\<close>.
\<close>

type_synonym props = "(string \<times> jsval) list"

datatype column =
  Column (col_id: string) (originalId: "string option") (parent: "column option")
         (headers: "column list option") (placeholderOf: "column option")
         (col_props: props)

text \<open>
  \<^verbatim>\<open>{...base, ...over}\<close>: the properties of \<open>over\<close>, and those of \<open>base\<close> that
  \<open>over\<close> does not have.
\<close>

definition override :: "props \<Rightarrow> props \<Rightarrow> props" where
  "override base over = over @ filter (\<lambda>kv. fst kv \<notin> fst ` set over) base"

definition fallback_renderer :: jsval where
  "fallback_renderer = Fn ''() => <>&nbsp;</>''"

text \<open>
  A default-column template, as \<open>decorateColumn\<close> spreads it over a column. Of the
  fields of \<open>column\<close> above, the placeholder that \<open>decorateColumn\<close> is applied to has
  \<open>id\<close>, \<open>originalId\<close>, \<open>headers\<close> and \<open>placeholderOf\<close> of its own but no
  \<open>parent\<close>, so a \<open>parent\<close> entry of the template ends up on the placeholder:
  \<open>template_parent\<close> is \<open>None\<close> for a template without that entry, \<open>Some None\<close>
  for an entry that is falsy and \<open>Some (Some p)\<close> for an entry that is the column
  \<open>p\<close>. The other properties are \<open>template_props\<close>.
\<close>

record template =
  template_parent :: "column option option"
  template_props :: props

text \<open>
  The \<open>parent\<close> of \<^verbatim>\<open>{...defaultColumn, ...userDefaultColumn}\<close>: the entry of the
  user's template when it has one, else that of the default.
\<close>

definition merged_parent :: "template \<Rightarrow> template \<Rightarrow> column option" where
  "merged_parent dc udc =
     (case template_parent udc of
        Some v \<Rightarrow> v
      | None \<Rightarrow> (case template_parent dc of Some v \<Rightarrow> v | None \<Rightarrow> None))"

text \<open>
  \<open>decorateColumn\<close> raises \<^verbatim>\<open>new Error()\<close> when no user default column is given,
  and otherwise assigns to the column
  \<^verbatim>\<open>{Header, Footer, ...defaultColumn, ...userDefaultColumn, ...column}\<close>: the column
  keeps what it has and gets the rest from the templates, a \<open>parent\<close> too when it has
  none. Its first argument is the \<^verbatim>\<open>defaultColumn\<close> imported from
  \<^verbatim>\<open>publicUtils\<close>, which is not among the sources and is a parameter here.
\<close>

fun decorateColumn :: "template \<Rightarrow> column \<Rightarrow> template option \<Rightarrow> error + column" where
  "decorateColumn defaultColumn column None = Inl (Error [])"
| "decorateColumn defaultColumn (Column i oid par hs ph ps) (Some userDefaultColumn) =
     Inr (Column i oid
            (case par of Some p \<Rightarrow> Some p | None \<Rightarrow> merged_parent defaultColumn userDefaultColumn)
            hs ph
            (override ps
               (override
                  (override
                     (override [(''Header'', fallback_renderer), (''Footer'', fallback_renderer)]
                        (template_props defaultColumn))
                     (template_props userDefaultColumn))
                  ps)))"

record headerGroup =
  group_headers :: "column list"

text \<open>
  The \<^verbatim>\<open>newParent\<close> of a scanned column: a copy of its parent with a fresh id and the
  parent's id as \<open>originalId\<close>, or a decorated placeholder when the column has no
  parent. \<open>uid\<close> is the value \<^verbatim>\<open>getUID()\<close> returns.
\<close>

definition newParent_of :: "template \<Rightarrow> template option \<Rightarrow> nat \<Rightarrow> column \<Rightarrow> error + column" where
  "newParent_of defaultColumn userDefaultColumn uid column =
     (case parent column of
        Some p \<Rightarrow>
          Inr (Column (col_id p @ ''_'' @ string_of_nat uid) (Some (col_id p)) (parent p)
                 (Some [column]) (placeholderOf p) (col_props p))
      | None \<Rightarrow>
          decorateColumn defaultColumn
            (Column (col_id column @ ''_placeholder_'' @ string_of_nat uid)
               (Some (col_id column @ ''_placeholder'')) None (Some [column]) (Some column) [])
            userDefaultColumn)"

text \<open>\<^verbatim>\<open>latestParentColumn.headers.push(column)\<close>.\<close>

definition push_header :: "column \<Rightarrow> column \<Rightarrow> column" where
  "push_header latest column =
     (case latest of Column i oid par hs ph ps \<Rightarrow>
        Column i oid par (Some ((case hs of None \<Rightarrow> [] | Some cs \<Rightarrow> cs) @ [column])) ph ps)"

text \<open>
  The body of \<^verbatim>\<open>scanColumns.forEach(column => ...)\<close>, over the state
  \<open>(parentColumns, uid, headerGroup.headers)\<close>. The latest parent column is the last
  of \<open>parentColumns\<close>; \<^verbatim>\<open>getUID()\<close> is called once for every column scanned while
  \<open>hasParents\<close> holds.
\<close>

fun scan_columns ::
  "template \<Rightarrow> template option \<Rightarrow> bool \<Rightarrow> column list \<Rightarrow> column list \<times> nat \<times> column list
     \<Rightarrow> error + (column list \<times> nat \<times> column list)" where
  "scan_columns dc udc hasParents [] st = Inr st"
| "scan_columns dc udc hasParents (column # rest) (parentColumns, uid, hdrs) =
     (if hasParents then
        (case newParent_of dc udc uid column of
           Inl e \<Rightarrow> Inl e
         | Inr newParent \<Rightarrow>
             (if parentColumns \<noteq> [] \<and> originalId (last parentColumns) = originalId newParent
              then scan_columns dc udc hasParents rest
                     (butlast parentColumns @ [push_header (last parentColumns) column],
                      Suc uid, hdrs @ [column])
              else scan_columns dc udc hasParents rest
                     (parentColumns @ [newParent], Suc uid, hdrs @ [column])))
      else scan_columns dc udc hasParents rest (parentColumns, uid, hdrs @ [column]))"

text \<open>The length of a column's chain of parents, and its maximum over a list.\<close>

fun pdepth :: "column \<Rightarrow> nat" where
  "pdepth (Column i oid par hs ph ps) = (case par of None \<Rightarrow> 0 | Some p \<Rightarrow> Suc (pdepth p))"

definition max_depth :: "column list \<Rightarrow> nat" where
  "max_depth cs = foldr (\<lambda>c m. max (pdepth c) m) cs 0"

text \<open>
  The loop \<^verbatim>\<open>while (scanColumns.length) { ... }\<close>: one header group per round, pushed
  on \<open>headerGroups\<close>; the parent columns of a round are scanned in the next. The loop
  need not end (a template with a \<open>parent\<close> gives every placeholder a parent, and a
  round can then always find a column with a parent): a run that does not end has the
  outcome \<open>None\<close>.
\<close>

partial_function (option) build_groups ::
  "template \<Rightarrow> template option \<Rightarrow> column list \<Rightarrow> nat \<Rightarrow> headerGroup list
     \<Rightarrow> (error + headerGroup list) option" where
  "build_groups dc udc scanColumns uid headerGroups =
     (if scanColumns = [] then Some (Inr headerGroups)
      else (case scan_columns dc udc (list_ex (\<lambda>d. parent d \<noteq> None) scanColumns) scanColumns
                   ([], uid, []) of
              Inl e \<Rightarrow> Some (Inl e)
            | Inr (parentColumns, uid', hdrs) \<Rightarrow>
                build_groups dc udc parentColumns uid'
                  (headerGroups @ [\<lparr>group_headers = hdrs\<rparr>])))"

text \<open>\<open>makeHeaderGroups\<close> returns \<^verbatim>\<open>headerGroups.reverse()\<close>.\<close>

definition makeHeaderGroups ::
  "template \<Rightarrow> column list \<Rightarrow> template option \<Rightarrow> (error + headerGroup list) option" where
  "makeHeaderGroups dc allColumns defaultColumn =
     (case build_groups dc defaultColumn allColumns 0 [] of
        None \<Rightarrow> None
      | Some (Inl e) \<Rightarrow> Some (Inl e)
      | Some (Inr headerGroups) \<Rightarrow> Some (Inr (rev headerGroups)))"

text \<open>
  For the statements: the number of leaf columns a header covers (a column without
  \<open>headers\<close> covers itself, a header cell covers what its \<open>headers\<close> cover); the
  \<open>originalId\<close> the builder gives the parent cell of a column; and the maximal runs
  of adjacent elements with equal keys.
\<close>

fun span :: "column \<Rightarrow> nat" where
  "span (Column i oid par hs ph ps) =
     (case hs of None \<Rightarrow> 1 | Some cs \<Rightarrow> sum_list (map span cs))"

definition group_span :: "headerGroup \<Rightarrow> nat" where
  "group_span g = sum_list (map span (group_headers g))"

definition hdrs_of :: "column \<Rightarrow> column list" where
  "hdrs_of p = (case headers p of None \<Rightarrow> [] | Some cs \<Rightarrow> cs)"

definition parent_key :: "column \<Rightarrow> string" where
  "parent_key c = (case parent c of Some p \<Rightarrow> col_id p | None \<Rightarrow> col_id c @ ''_placeholder'')"

function runs :: "('a \<Rightarrow> 'k) \<Rightarrow> 'a list \<Rightarrow> 'a list list" where
  "runs key [] = []"
| "runs key (x # xs) =
     (x # takeWhile (\<lambda>y. key y = key x) xs) # runs key (dropWhile (\<lambda>y. key y = key x) xs)"
  by pat_completeness auto
termination
  by (relation "measure (\<lambda>(key, xs). length xs)") (auto simp: length_dropWhile_le less_Suc_eq_le)

text \<open>
  An example configuration: leaves \<open>a\<close> and \<open>b\<close> under group \<open>g\<close> under group \<open>h\<close>,
  a top-level leaf \<open>c\<close>, and leaf \<open>d\<close> under group \<open>k\<close>.
\<close>

definition example_columns :: "column list" where
  "example_columns =
     [Column ''a'' None
        (Some (Column ''g'' None (Some (Column ''h'' None None None None [])) None None []))
        None None [],
      Column ''b'' None
        (Some (Column ''g'' None (Some (Column ''h'' None None None None [])) None None []))
        None None [],
      Column ''c'' None None None None [],
      Column ''d'' None (Some (Column ''k'' None None None None [])) None None []]"

text \<open>A template with display properties only.\<close>

definition plain_template :: template where
  "plain_template = \<lparr>template_parent = None, template_props = []\<rparr>"


section \<open>linkColumnStructure and assignColumnAccessor\<close>

text \<open>
  The column configuration is a graph of objects and arrays that the caller owns, and
  \<open>assignColumnAccessor\<close> writes to the object it is given: the model keeps the
  objects in a store. A value is a primitive, a function, or a reference to an object
  or array of the store; \<open>HAccessor path\<close> is the closure
  \<^verbatim>\<open>row => getBy(row, accessorPath)\<close> that \<open>assignColumnAccessor\<close> creates. The
  store is a list and an address is an index in it; allocation appends.
\<close>

datatype hval =
    HUndefined
  | HNull
  | HBool bool
  | HNum int
  | HStr string
  | HFn string
  | HAccessor "string list"
  | HRef nat

datatype hobj = HObject "(string \<times> hval) list" | HArray "hval list"

type_synonym heap = "hobj list"

fun htruthy :: "hval \<Rightarrow> bool" where
  "htruthy HUndefined = False"
| "htruthy HNull = False"
| "htruthy (HBool b) = b"
| "htruthy (HNum n) = (n \<noteq> 0)"
| "htruthy (HStr s) = (s \<noteq> [])"
| "htruthy (HFn f) = True"
| "htruthy (HAccessor p) = True"
| "htruthy (HRef a) = True"

text \<open>Reading and writing a property of an object's property list.\<close>

definition get_prop :: "(string \<times> hval) list \<Rightarrow> string \<Rightarrow> hval" where
  "get_prop ps k = (case map_of ps k of Some v \<Rightarrow> v | None \<Rightarrow> HUndefined)"

fun set_prop :: "('k \<times> 'v) list \<Rightarrow> 'k \<Rightarrow> 'v \<Rightarrow> ('k \<times> 'v) list" where
  "set_prop [] k v = [(k, v)]"
| "set_prop ((k', v') # ps) k v = (if k' = k then (k, v) # ps else (k', v') # set_prop ps k v)"

text \<open>
  Reading and writing a named property of the object at an address (an array has no
  named property of the ones read here).
\<close>

definition read_field :: "heap \<Rightarrow> nat \<Rightarrow> string \<Rightarrow> hval" where
  "read_field h a k =
     (if a < length h then (case h ! a of HObject ps \<Rightarrow> get_prop ps k | HArray vs \<Rightarrow> HUndefined)
      else HUndefined)"

definition write_field :: "heap \<Rightarrow> nat \<Rightarrow> string \<Rightarrow> hval \<Rightarrow> heap" where
  "write_field h a k v =
     (if a < length h then (case h ! a of HObject ps \<Rightarrow> h[a := HObject (set_prop ps k v)] | HArray vs \<Rightarrow> h)
      else h)"

text \<open>
  \<^verbatim>\<open>{...v}\<close>: the own properties of an object, the indices of an array or of a
  string, nothing for another value.
\<close>

definition index_props :: "hval list \<Rightarrow> (string \<times> hval) list" where
  "index_props vs = map (\<lambda>i. (string_of_nat i, vs ! i)) [0..<length vs]"

definition spread :: "heap \<Rightarrow> hval \<Rightarrow> (string \<times> hval) list" where
  "spread h v =
     (case v of
        HRef a \<Rightarrow>
          (if a < length h
           then (case h ! a of HObject ps \<Rightarrow> ps | HArray vs \<Rightarrow> index_props vs)
           else [])
      | HStr s \<Rightarrow> index_props (map (\<lambda>c. HStr [c]) s)
      | _ \<Rightarrow> [])"

subsection \<open>assignColumnAccessor\<close>

definition id_with_columns_required :: string where
  \<open>id_with_columns_required = ''A column ID (or unique "Header" value) is required!''\<close>

definition id_required :: string where
  "id_required = ''A column ID (or string accessor) is required!''"

definition is_string :: "hval \<Rightarrow> bool" where
  "is_string v = (case v of HStr s \<Rightarrow> True | _ \<Rightarrow> False)"

text \<open>
  The local \<^verbatim>\<open>id\<close> after the first two statements of \<open>assignColumnAccessor\<close>:
  \<^verbatim>\<open>id = id || accessor\<close> for a string accessor, then \<^verbatim>\<open>id = Header\<close> when the id is
  still falsy and \<open>Header\<close> is a non-empty string.
\<close>

definition resolve_id :: "(string \<times> hval) list \<Rightarrow> hval" where
  "resolve_id ps =
     (let id0 = get_prop ps ''id'';
          accessor = get_prop ps ''accessor'';
          Header = get_prop ps ''Header'';
          id1 = (case accessor of HStr a \<Rightarrow> (if htruthy id0 then id0 else accessor) | _ \<Rightarrow> id0)
      in if \<not> htruthy id1 \<and> is_string Header \<and> htruthy Header then Header else id1)"

text \<open>
  The local \<^verbatim>\<open>accessor\<close>: a string accessor becomes the closure over
  \<^verbatim>\<open>accessor.split('.')\<close>.
\<close>

definition resolve_accessor :: "(string \<times> hval) list \<Rightarrow> hval" where
  "resolve_accessor ps =
     (case get_prop ps ''accessor'' of
        HStr a \<Rightarrow> HAccessor (split_on CHR ''.'' a)
      | accessor \<Rightarrow> accessor)"

text \<open>
  The two checks and \<^verbatim>\<open>Object.assign(column, {id, accessor})\<close>, on the property
  list of the column (the \<^verbatim>\<open>console.error\<close> before each throw is not modelled).
\<close>

definition assign_props :: "(string \<times> hval) list \<Rightarrow> error + (string \<times> hval) list" where
  "assign_props ps =
     (let id' = resolve_id ps; accessor = resolve_accessor ps
      in if \<not> htruthy id' \<and> htruthy (get_prop ps ''columns'') then Inl (Error id_with_columns_required)
         else if \<not> htruthy id' then Inl (Error id_required)
         else Inr (set_prop (set_prop ps ''id'' id') ''accessor'' accessor))"

text \<open>
  An outcome is a throw or a return, each with the store it leaves.
  \<open>assignColumnAccessor\<close> takes the address of the column object, writes the two
  properties to that object and returns the reference. An array has none of the
  three properties read, so the second check throws.
\<close>

datatype 'a outcome = Throws error heap | Returns heap 'a

definition assignColumnAccessor :: "heap \<Rightarrow> nat \<Rightarrow> hval outcome" where
  "assignColumnAccessor h column =
     (if column < length h then
        (case h ! column of
           HObject ps \<Rightarrow>
             (case assign_props ps of
                Inl e \<Rightarrow> Throws e h
              | Inr ps' \<Rightarrow> Returns (h[column := HObject ps']) (HRef column))
         | HArray vs \<Rightarrow> Throws (Error id_required) h)
      else Throws TypeError h)"

subsection \<open>linkColumnStructure\<close>

text \<open>
  \<^verbatim>\<open>columns.map\<close> needs an array: the elements of the array a value refers to.
\<close>

definition array_elems :: "heap \<Rightarrow> hval \<Rightarrow> hval list option" where
  "array_elems h v =
     (case v of
        HRef a \<Rightarrow> (if a < length h then (case h ! a of HArray vs \<Rightarrow> Some vs | HObject ps \<Rightarrow> None) else None)
      | _ \<Rightarrow> None)"

text \<open>
  Sequencing: a throw ends the computation, running out of fuel (\<open>None\<close>) too.
\<close>

fun and_then :: "'a outcome option \<Rightarrow> (heap \<Rightarrow> 'a \<Rightarrow> 'b outcome option) \<Rightarrow> 'b outcome option" where
  "and_then None f = None"
| "and_then (Some (Throws e h)) f = Some (Throws e h)"
| "and_then (Some (Returns h x)) f = f h x"

type_synonym linker = "heap \<Rightarrow> hval \<Rightarrow> hval \<Rightarrow> int \<Rightarrow> hval outcome option"

text \<open>The properties of the copy \<^verbatim>\<open>{...column, parent, depth}\<close>.\<close>

definition copy_props :: "heap \<Rightarrow> hval \<Rightarrow> hval \<Rightarrow> int \<Rightarrow> (string \<times> hval) list" where
  "copy_props h column parent' depth =
     set_prop (set_prop (spread h column) ''parent'' parent') ''depth'' (HNum depth)"

text \<open>
  The callback of \<^verbatim>\<open>columns.map\<close>: allocate the copy (at address \<open>length h\<close>), assign
  its id and accessor, and when the copy has truthy \<open>columns\<close>, link them with the copy
  as parent and store the result on the copy. \<open>recurse\<close> is the recursive call to
  \<open>linkColumnStructure\<close>.
\<close>

definition link_column :: "linker \<Rightarrow> heap \<Rightarrow> hval \<Rightarrow> hval \<Rightarrow> int \<Rightarrow> hval outcome option" where
  "link_column recurse h column parent' depth =
     and_then
       (Some (assignColumnAccessor
                (h @ [HObject (copy_props h column parent' depth)]) (length h)))
       (\<lambda>h2 r.
          if htruthy (read_field h2 (length h) ''columns'') then
            and_then
              (recurse h2 (read_field h2 (length h) ''columns'') (HRef (length h)) (depth + 1))
              (\<lambda>h3 cols. Some (Returns (write_field h3 (length h) ''columns'' cols) (HRef (length h))))
          else Some (Returns h2 (HRef (length h))))"

text \<open>\<^verbatim>\<open>columns.map(callback)\<close> over the elements, left to right.\<close>

fun link_columns :: "linker \<Rightarrow> heap \<Rightarrow> hval list \<Rightarrow> hval \<Rightarrow> int \<Rightarrow> hval list outcome option" where
  "link_columns recurse h [] parent' depth = Some (Returns h [])"
| "link_columns recurse h (column # rest) parent' depth =
     and_then (link_column recurse h column parent' depth)
       (\<lambda>h' c. and_then (link_columns recurse h' rest parent' depth)
          (\<lambda>h'' cs. Some (Returns h'' (c # cs))))"

text \<open>
  \<open>linkColumnStructure\<close>, with fuel for the depth of the recursion (a configuration in
  the store can contain itself, and the recursion then never returns): \<open>None\<close> is
  running out of fuel. The array that \<^verbatim>\<open>map\<close> returns is allocated last.
\<close>

primrec linkColumnStructure :: "nat \<Rightarrow> linker" where
  "linkColumnStructure 0 = (\<lambda>h columns parent' depth. None)"
| "linkColumnStructure (Suc fuel) =
     (\<lambda>h columns parent' depth.
        case array_elems h columns of
          None \<Rightarrow> Some (Throws TypeError h)
        | Some vs \<Rightarrow>
            and_then (link_columns (linkColumnStructure fuel) h vs parent' depth)
              (\<lambda>h' linked. Some (Returns (h' @ [HArray linked]) (HRef (length h')))))"

text \<open>
  For the statements: the store an outcome leaves; a store that extends another (the
  old addresses hold what they held); a value that is not a reference outside the
  store; and what a linked column is to the configuration node \<open>v\<close> it was made from:
  a new object with the given \<open>parent\<close> and \<open>depth\<close>, the resolved \<open>id\<close> and
  \<open>accessor\<close>, a new array as \<open>columns\<close> when the node has nested columns, and the
  node's own value for every other property.
\<close>

fun heap_of :: "'a outcome \<Rightarrow> heap" where
  "heap_of (Throws e h) = h"
| "heap_of (Returns h x) = h"

definition extends :: "heap \<Rightarrow> heap \<Rightarrow> bool" where
  "extends h h' = (length h \<le> length h' \<and> take (length h) h' = h)"

definition valid_in :: "heap \<Rightarrow> hval \<Rightarrow> bool" where
  "valid_in h v = (case v of HRef a \<Rightarrow> a < length h | _ \<Rightarrow> True)"

definition copy_of :: "heap \<Rightarrow> heap \<Rightarrow> hval \<Rightarrow> nat \<Rightarrow> hval \<Rightarrow> int \<Rightarrow> bool" where
  "copy_of h hf v b parent' depth =
     (\<exists>ps. length h \<le> b \<and> b < length hf \<and> hf ! b = HObject ps
        \<and> get_prop ps ''parent'' = parent'
        \<and> get_prop ps ''depth'' = HNum depth
        \<and> get_prop ps ''id'' = resolve_id (spread h v)
        \<and> htruthy (resolve_id (spread h v))
        \<and> get_prop ps ''accessor'' = resolve_accessor (spread h v)
        \<and> (\<forall>k. k \<notin> {''id'', ''accessor'', ''columns'', ''parent'', ''depth''} \<longrightarrow>
               get_prop ps k = get_prop (spread h v) k)
        \<and> (if htruthy (get_prop (spread h v) ''columns'')
            then (\<exists>arr. get_prop ps ''columns'' = HRef arr \<and> length h \<le> arr \<and> arr < length hf)
            else get_prop ps ''columns'' = get_prop (spread h v) ''columns''))"

definition linker_ok :: "linker \<Rightarrow> bool" where
  "linker_ok f =
     (\<forall>h c p d out. f h c p d = Some out \<longrightarrow>
        extends h (heap_of out)
        \<and> (\<forall>hf r. out = Returns hf r \<longrightarrow>
              (\<exists>arr. r = HRef arr \<and> length h \<le> arr \<and> arr < length hf)))"


text \<open>
  A store has no dangling reference when every value held by an object or array of it
  is valid in it. The column arrays below \<open>columns\<close> nest within \<open>n\<close> levels when
  \<open>columns\<close> is not an array, or \<open>n\<close> is positive and the \<open>columns\<close> of every
  element that has a truthy one nest within \<open>n - 1\<close> levels (a configuration that
  contains itself nests within no number of levels).
\<close>

definition closed_heap :: "heap \<Rightarrow> bool" where
  "closed_heap h =
     (\<forall>a<length h. case h ! a of
        HObject ps \<Rightarrow> (\<forall>kv\<in>set ps. valid_in h (snd kv))
      | HArray vs \<Rightarrow> (\<forall>v\<in>set vs. valid_in h v))"

primrec nested_within :: "nat \<Rightarrow> heap \<Rightarrow> hval \<Rightarrow> bool" where
  "nested_within 0 h columns = False"
| "nested_within (Suc n) h columns =
     (case array_elems h columns of
        None \<Rightarrow> True
      | Some vs \<Rightarrow>
          list_all (\<lambda>v. htruthy (get_prop (spread h v) ''columns'') \<longrightarrow>
                         nested_within n h (get_prop (spread h v) ''columns'')) vs)"

text \<open>
  What the result \<open>r\<close> of \<open>linkColumnStructure\<close> is to the array \<open>columns\<close> it was
  made from, through all levels: a new array with one element for each element of
  \<open>columns\<close>, each a reference to a copy of that element (with the given parent and
  depth), and for every element with truthy \<open>columns\<close> the copy's \<open>columns\<close> is in
  turn the linked array of the element's \<open>columns\<close>, with the copy as parent and the
  depth one more.
\<close>

primrec linked_array :: "nat \<Rightarrow> heap \<Rightarrow> heap \<Rightarrow> hval \<Rightarrow> hval \<Rightarrow> hval \<Rightarrow> int \<Rightarrow> bool" where
  "linked_array 0 h hf columns r parent' depth = False"
| "linked_array (Suc n) h hf columns r parent' depth =
     (\<exists>arr vs linked.
        r = HRef arr \<and> length h \<le> arr \<and> arr < length hf
        \<and> array_elems h columns = Some vs
        \<and> hf ! arr = HArray linked \<and> length linked = length vs
        \<and> (\<forall>i<length vs.
              \<exists>b. linked ! i = HRef b \<and> copy_of h hf (vs ! i) b parent' depth
                  \<and> (htruthy (get_prop (spread h (vs ! i)) ''columns'') \<longrightarrow>
                        linked_array n h hf (get_prop (spread h (vs ! i)) ''columns'')
                          (read_field hf b ''columns'') (HRef b) (depth + 1))))"

text \<open>
  For the proofs: two stores that hold the same from an address on; a linker that
  returns linked arrays; a linker that ends on arrays nested within \<open>n\<close> levels.
\<close>

definition agree_above :: "nat \<Rightarrow> heap \<Rightarrow> heap \<Rightarrow> bool" where
  "agree_above m hf hf' =
     (length hf \<le> length hf' \<and> (\<forall>a. m \<le> a \<longrightarrow> a < length hf \<longrightarrow> hf' ! a = hf ! a))"

definition linker_copies :: "heap \<Rightarrow> nat \<Rightarrow> linker \<Rightarrow> bool" where
  "linker_copies h0 n f =
     (\<forall>h c p d hf r. extends h0 h \<longrightarrow> valid_in h0 c \<longrightarrow> f h c p d = Some (Returns hf r) \<longrightarrow>
        linked_array n h hf c r p d)"

definition linker_returns :: "heap \<Rightarrow> nat \<Rightarrow> linker \<Rightarrow> bool" where
  "linker_returns h0 n f =
     (\<forall>h c p d. extends h0 h \<longrightarrow> valid_in h0 c \<longrightarrow> nested_within n h0 c \<longrightarrow>
        f h c p d \<noteq> None)"

text \<open>
  An example configuration in the store: a group \<open>Info\<close> (object 3) with two leaves
  (objects 0 and 1), the top-level array at address 4.
\<close>

definition example_heap :: heap where
  "example_heap =
     [HObject [(''Header'', HStr ''First''), (''accessor'', HStr ''name.first'')],
      HObject [(''id'', HStr ''age''), (''accessor'', HFn ''row => row.age'')],
      HArray [HRef 0, HRef 1],
      HObject [(''Header'', HStr ''Info''), (''columns'', HRef 2)],
      HArray [HRef 3]]"




section \<open>accessRowsForColumn: the row materializer\<close>

text \<open>
  \<open>unpreparedAccessWarning\<close> takes no argument and always raises the same error.
  \<open>accessRowsForColumn\<close> stores it as the \<open>map\<close>, \<open>filter\<close> and \<open>forEach\<close> of a new
  row's \<open>cells\<close> array and as the \<open>getCellProps\<close> of its only element; a method slot
  holds either that function or the array's built-in one, and calling the slot runs
  what it holds.
\<close>

datatype callable = UnpreparedAccessWarning | Builtin

definition unprepared_message :: string where
  "unprepared_message =
     ''React-Table: You have not called prepareRow(row) one or more rows you are attempting to render.''"

definition unpreparedAccessWarning :: "error + jsval" where
  "unpreparedAccessWarning = Inl (Error unprepared_message)"

definition call_slot :: "callable \<Rightarrow> error + jsval" where
  "call_slot m = (case m of UnpreparedAccessWarning \<Rightarrow> unpreparedAccessWarning | Builtin \<Rightarrow> Inr Undefined)"

text \<open>
  \<^verbatim>\<open>cells: [{}]\<close> with its overridden methods: the elements, each with an optional
  \<open>getCellProps\<close>, and the three array methods the code overrides. \<open>dummy_cells\<close> is
  the array as lines 120 to 128 leave it.
\<close>

record cell =
  getCellProps :: "callable option"

record cells =
  cell_items :: "cell list"
  map_slot :: callable
  filter_slot :: callable
  forEach_slot :: callable

definition dummy_cells :: cells where
  "dummy_cells =
     \<lparr>cell_items = [\<lparr>getCellProps = Some UnpreparedAccessWarning\<rparr>],
      map_slot = UnpreparedAccessWarning,
      filter_slot = UnpreparedAccessWarning,
      forEach_slot = UnpreparedAccessWarning\<rparr>"

text \<open>
  A row object. \<open>values\<close> is a property list (the field is \<open>obj_values\<close>), and
  \<open>originalSubRows\<close> and \<open>subRows\<close> are absent (\<open>None\<close>) until they are assigned.
  \<open>subRows\<close> is an array of row objects; rows are identified by their place in
  \<open>rowsById\<close>, so the model keeps the ids.
\<close>

record rowObj =
  obj_id :: string
  obj_original :: jsval
  obj_index :: nat
  obj_depth :: nat
  obj_cells :: cells
  obj_values :: "(string \<times> jsval) list"
  obj_originalSubRows :: "jsval list option"
  obj_subRows :: "string list option"

text \<open>
  The four reads of the claim: \<^verbatim>\<open>row.cells.map(...)\<close>, \<^verbatim>\<open>row.cells.filter(...)\<close>,
  \<^verbatim>\<open>row.cells.forEach(...)\<close> and \<^verbatim>\<open>row.cells[0].getCellProps(...)\<close>. Calling a
  property that is absent is a \<open>TypeError\<close>.
\<close>

definition cells_map :: "rowObj \<Rightarrow> error + jsval" where
  "cells_map row = call_slot (map_slot (obj_cells row))"

definition cells_filter :: "rowObj \<Rightarrow> error + jsval" where
  "cells_filter row = call_slot (filter_slot (obj_cells row))"

definition cells_forEach :: "rowObj \<Rightarrow> error + jsval" where
  "cells_forEach row = call_slot (forEach_slot (obj_cells row))"

definition cells_0_getCellProps :: "rowObj \<Rightarrow> error + jsval" where
  "cells_0_getCellProps row =
     (case cell_items (obj_cells row) of
        [] \<Rightarrow> Inl TypeError
      | c # cs \<Rightarrow> (case getCellProps c of None \<Rightarrow> Inl TypeError | Some m \<Rightarrow> call_slot m))"

text \<open>
  The parameters of \<open>accessRowsForColumn\<close> that are functions or describe the column:
  \<open>getRowId\<close>, \<open>getSubRows\<close> (an array of raw items, or nothing), the column's \<open>id\<close>
  and its optional \<open>accessor\<close>, and the value hooks. They are taken as pure
  functions: they return a value and change nothing. A hook receives the previous
  value and the meta object (the row and the column; the instance is not modelled).
\<close>

record hook_meta =
  meta_row :: rowObj
  meta_column :: string

record materializer =
  getRowId :: "jsval \<Rightarrow> nat \<Rightarrow> rowObj option \<Rightarrow> string"
  getSubRows :: "jsval \<Rightarrow> nat \<Rightarrow> jsval list option"
  column_id :: string
  column_accessor :: "(jsval \<Rightarrow> nat \<Rightarrow> rowObj \<Rightarrow> jsval) option"
  accessValueHooks :: "(jsval \<Rightarrow> hook_meta \<Rightarrow> jsval) list"

text \<open>
  The three containers the caller passes and the function fills. \<open>flatRows\<close> and
  \<open>rowsById\<close> hold the same row objects, so the model keeps the objects in
  \<open>rowsById\<close> and the ids in \<open>flatRows\<close>; the \<open>rows\<close> array (and each \<open>subRows\<close>
  array under construction) is the accumulator threaded through the walk.
\<close>

record table =
  flatRows :: "string list"
  rowsById :: "string \<rightharpoonup> rowObj"

text \<open>
  Modelled from the spec: \<open>reduceHooks\<close> is imported from \<^verbatim>\<open>./publicUtils\<close>, which is
  not among the sources. The specification says that every registered value-transform
  hook is run over the raw value in registration order, each hook permitted to
  overwrite the value seen by the next hook: a left fold of the hooks over the initial
  value, each hook applied to the previous value and the meta object.
\<close>

definition reduceHooks :: "(jsval \<Rightarrow> hook_meta \<Rightarrow> jsval) list \<Rightarrow> jsval \<Rightarrow> hook_meta \<Rightarrow> jsval" where
  "reduceHooks hooks initial meta = foldl (\<lambda>prev hook. hook prev meta) initial hooks"

text \<open>
  \<^verbatim>\<open>row.values[k]\<close>, an update of the row stored under an id, and lines 159 to 174:
  the accessor's value, when the column has an accessor, and then the hooks' value are
  assigned to \<^verbatim>\<open>row.values[column.id]\<close>.
\<close>

definition value_of :: "rowObj \<Rightarrow> string \<Rightarrow> jsval" where
  "value_of row k = (case map_of (obj_values row) k of Some v \<Rightarrow> v | None \<Rightarrow> Undefined)"

definition update_row :: "table \<Rightarrow> string \<Rightarrow> (rowObj \<Rightarrow> rowObj) \<Rightarrow> table" where
  "update_row t i f = t\<lparr>rowsById := (rowsById t)(i := map_option f (rowsById t i))\<rparr>"

definition assign_value :: "materializer \<Rightarrow> jsval \<Rightarrow> nat \<Rightarrow> rowObj \<Rightarrow> rowObj" where
  "assign_value m originalRow rowIndex row =
     (let row1 = (case column_accessor m of
                    Some accessor \<Rightarrow>
                      row\<lparr>obj_values := set_prop (obj_values row) (column_id m)
                                          (accessor originalRow rowIndex row)\<rparr>
                  | None \<Rightarrow> row)
      in row1\<lparr>obj_values := set_prop (obj_values row1) (column_id m)
                 (reduceHooks (accessValueHooks m) (value_of row1 (column_id m))
                    \<lparr>meta_row = row1, meta_column = column_id m\<rparr>)\<rparr>)"

text \<open>
  The walk. \<open>accessRow\<close> calls itself for the sub-rows of the raw data, and for an
  existing row for the \<open>originalSubRows\<close> stored on it, which need not be smaller than
  anything: the model counts the nesting of the calls down from a bound (the fuel) and
  a walk that exceeds it has the outcome \<open>None\<close>. Otherwise the outcome is an
  error raised, or the accumulator and the table as the call leaves them. The
  accumulator is \<open>None\<close> when \<open>parentRows\<close> is not passed (\<^verbatim>\<open>undefined\<close>).
  \<open>each_row\<close> is \<^verbatim>\<open>forEach((d, i) => accessRow(d, i, depth, parent, parentRows))\<close>;
  the parent row is passed by its id and read from the table when \<open>getRowId\<close> is
  called, as the code passes the (mutable) row object.
\<close>

type_synonym walk = "(error + (string list option \<times> table)) option"

fun then_walk :: "walk \<Rightarrow> (string list option \<Rightarrow> table \<Rightarrow> walk) \<Rightarrow> walk" where
  "then_walk None f = None"
| "then_walk (Some (Inl e)) f = Some (Inl e)"
| "then_walk (Some (Inr (acc, t))) f = f acc t"

type_synonym visit = "jsval \<Rightarrow> nat \<Rightarrow> nat \<Rightarrow> string option \<Rightarrow> string list option \<Rightarrow> table \<Rightarrow> walk"

fun each_row :: "visit \<Rightarrow> jsval list \<Rightarrow> nat \<Rightarrow> nat \<Rightarrow> string option \<Rightarrow> string list option \<Rightarrow> table \<Rightarrow> walk" where
  "each_row visit [] i depth parent' parentRows t = Some (Inr (parentRows, t))"
| "each_row visit (d # ds) i depth parent' parentRows t =
     then_walk (visit d i depth parent' parentRows t)
       (\<lambda>parentRows' t'. each_row visit ds (Suc i) depth parent' parentRows' t')"

text \<open>
  The object literal of lines 115 to 131 (with \<^verbatim>\<open>row.values = {}\<close>), the parent row
  passed to \<open>getRowId\<close>, and the end of \<open>accessRow\<close> (lines 159 to 174).
\<close>

definition new_row :: "string \<Rightarrow> jsval \<Rightarrow> nat \<Rightarrow> nat \<Rightarrow> rowObj" where
  "new_row i originalRow rowIndex depth =
     \<lparr>obj_id = i, obj_original = originalRow, obj_index = rowIndex, obj_depth = depth,
      obj_cells = dummy_cells, obj_values = [], obj_originalSubRows = None, obj_subRows = None\<rparr>"

definition parent_row :: "table \<Rightarrow> string option \<Rightarrow> rowObj option" where
  "parent_row t parent' = (case parent' of None \<Rightarrow> None | Some p \<Rightarrow> rowsById t p)"

definition finish_row :: "materializer \<Rightarrow> jsval \<Rightarrow> nat \<Rightarrow> string \<Rightarrow> string list option \<Rightarrow> table \<Rightarrow> walk" where
  "finish_row m originalRow rowIndex i parentRows t =
     Some (Inr (parentRows, update_row t i (assign_value m originalRow rowIndex)))"

text \<open>
  \<open>accessRow\<close>, lines 105 to 175. A row that is not in \<open>rowsById\<close> is created:
  \<^verbatim>\<open>parentRows.push(row)\<close> raises a \<open>TypeError\<close> when \<open>parentRows\<close> is
  \<^verbatim>\<open>undefined\<close>; otherwise the row is pushed to \<open>parentRows\<close> and \<open>flatRows\<close> and
  stored in \<open>rowsById\<close>, its \<open>originalSubRows\<close> are set, and when there are some they
  are walked with a new array, which becomes the row's \<open>subRows\<close>. (The sub-rows are
  collected in their own array, so the push to \<open>parentRows\<close> commutes with their
  walk: the model returns the extended \<open>parentRows\<close> at the end.) A row that exists and
  has \<open>subRows\<close> has its \<open>originalSubRows\<close> walked with no accumulator;
  \<^verbatim>\<open>row.originalSubRows.forEach\<close> raises a \<open>TypeError\<close> when they are absent. In every
  case that does not raise, the value is then assigned.
\<close>

primrec accessRow :: "nat \<Rightarrow> materializer \<Rightarrow> visit" where
  "accessRow 0 m = (\<lambda>originalRow rowIndex depth parent' parentRows t. None)"
| "accessRow (Suc fuel) m =
     (\<lambda>originalRow rowIndex depth parent' parentRows t.
        let i = getRowId m originalRow rowIndex (parent_row t parent') in
        case rowsById t i of
          None \<Rightarrow>
            (case parentRows of
               None \<Rightarrow> Some (Inl TypeError)
             | Some siblings \<Rightarrow>
                 let t1 = t\<lparr>flatRows := flatRows t @ [i],
                            rowsById := (rowsById t)(i \<mapsto> new_row i originalRow rowIndex depth)\<rparr>;
                     originalSubRows = getSubRows m originalRow rowIndex;
                     t2 = update_row t1 i (\<lambda>row. row\<lparr>obj_originalSubRows := originalSubRows\<rparr>)
                 in (case originalSubRows of
                       None \<Rightarrow> finish_row m originalRow rowIndex i (Some (siblings @ [i])) t2
                     | Some ds \<Rightarrow>
                         then_walk (each_row (accessRow fuel m) ds 0 (depth + 1) (Some i) (Some []) t2)
                           (\<lambda>children t3.
                              finish_row m originalRow rowIndex i (Some (siblings @ [i]))
                                (update_row t3 i (\<lambda>row. row\<lparr>obj_subRows := children\<rparr>)))))
        | Some row \<Rightarrow>
            (case obj_subRows row of
               None \<Rightarrow> finish_row m originalRow rowIndex i parentRows t
             | Some children \<Rightarrow>
                 (case obj_originalSubRows row of
                    None \<Rightarrow> Some (Inl TypeError)
                  | Some ds \<Rightarrow>
                      then_walk (each_row (accessRow fuel m) ds 0 (depth + 1) (Some i) None t)
                        (\<lambda>ignored t3. finish_row m originalRow rowIndex i parentRows t3))))"

text \<open>
  \<open>accessRowsForColumn\<close>, lines 177 to 179: every item of \<open>data\<close> is visited at depth
  0 with no parent and the \<open>rows\<close> array as accumulator.
\<close>

definition accessRowsForColumn :: "nat \<Rightarrow> materializer \<Rightarrow> jsval list \<Rightarrow> string list \<Rightarrow> table \<Rightarrow> walk" where
  "accessRowsForColumn fuel m data rows t =
     each_row (accessRow fuel m) data 0 0 None (Some rows) t"






definition unprepared :: "table \<Rightarrow> bool" where
  "unprepared t = (\<forall>i row. rowsById t i = Some row \<longrightarrow> obj_cells row = dummy_cells)"

text \<open>
  What the statements are proved of, for a visit function (\<open>accessRow\<close> at some fuel):
  it keeps the dummy cells; it only assigns values when the row it is called for is in
  a closed table; it keeps a table closed, only adds rows, and leaves the row it is
  called for in the table.
\<close>

definition keeps_unprepared :: "visit \<Rightarrow> bool" where
  "keeps_unprepared visit =
     (\<forall>d i depth p acc t acc' t'.
        unprepared t \<longrightarrow> visit d i depth p acc t = Some (Inr (acc', t')) \<longrightarrow> unprepared t')"



text \<open>
  An example: two raw items, the first with one sub-row; the default id function
  (\<^verbatim>\<open>index\<close>, or \<^verbatim>\<open>parent.id + '.' + index\<close>); the columns \<open>name\<close> and \<open>age\<close>.
\<close>

definition empty_table :: table where
  "empty_table = \<lparr>flatRows = [], rowsById = Map.empty\<rparr>"

definition example_materializer :: materializer where
  "example_materializer =
     \<lparr>getRowId = (\<lambda>originalRow rowIndex p.
          case p of None \<Rightarrow> string_of_nat rowIndex
          | Some r \<Rightarrow> obj_id r @ ''.'' @ string_of_nat rowIndex),
      getSubRows = (\<lambda>originalRow rowIndex.
          case getProp bare_env originalRow ''subRows'' of Inr (Arr ds) \<Rightarrow> Some ds | _ \<Rightarrow> None),
      column_id = ''name'',
      column_accessor = Some (\<lambda>originalRow rowIndex row.
          case getProp bare_env originalRow ''name'' of Inr v \<Rightarrow> v | Inl e \<Rightarrow> Undefined),
      accessValueHooks = []\<rparr>"

definition example_data :: "jsval list" where
  "example_data =
     [Obj [(''name'', Str ''a''), (''age'', Num 1),
           (''subRows'', Arr [Obj [(''name'', Str ''b''), (''age'', Num 2)]])],
      Obj [(''name'', Str ''c''), (''age'', Num 3)]]"

definition example_materializer2 :: materializer where
  "example_materializer2 =
     example_materializer
       \<lparr>column_id := ''age'',
        column_accessor := Some (\<lambda>originalRow rowIndex row.
          case getProp bare_env originalRow ''age'' of Inr v \<Rightarrow> v | Inl e \<Rightarrow> Undefined)\<rparr>"


section \<open>Properties of shouldAutoRemoveFilter\<close>

text \<open>
  Claim C9. With no custom \<^verbatim>\<open>autoRemove\<close> predicate, \<open>shouldAutoRemoveFilter\<close> returns
  \<^verbatim>\<open>true\<close> exactly when the filter value is \<^verbatim>\<open>undefined\<close> (and \<^verbatim>\<open>false\<close>
  otherwise); with a custom predicate the result is
  \<^verbatim>\<open>autoRemove(value, column)\<close>.
\<close>

theorem shouldAutoRemoveFilter_default:
  "shouldAutoRemoveFilter None v column = Bool (v = Undefined)
   \<and> (shouldAutoRemoveFilter None v column = Bool True) = (v = Undefined)
   \<and> shouldAutoRemoveFilter (Some autoRemove) v column = autoRemove v column"
  by (simp add: shouldAutoRemoveFilter_def)

section \<open>Properties of getBy\<close>

lemma json_norm_key_elem: "key_elem p \<Longrightarrow> json_norm p = p"
proof (induction p)
  case (Arr xs)
  have "map (\<lambda>x. case x of Undefined \<Rightarrow> Null | Fn f \<Rightarrow> Null | _ \<Rightarrow> json_norm x) xs = xs"
  proof (rule map_idI)
    fix x assume x: "x \<in> set xs"
    with Arr.prems have k: "key_elem x" by (simp add: list_all_iff)
    with Arr.IH x have "json_norm x = x" by simp
    with k show "(case x of Undefined \<Rightarrow> Null | Fn f \<Rightarrow> Null | _ \<Rightarrow> json_norm x) = x"
      by (cases x) simp_all
  qed
  then show ?case by simp
qed simp_all

lemma cacheKey_inj:
  assumes "key_path p" and "key_path q" and "cacheKey p = cacheKey q"
  shows "p = q"
proof (cases p)
  case (Fn f)
  with assms(3) show ?thesis by (cases q) (simp_all add: cacheKey_def)
next
  case Undefined with assms(1) show ?thesis by (simp add: key_path_def)
next
  case Null with assms(1) show ?thesis by (simp add: key_path_def)
next
  case (Bool b) with assms(1) show ?thesis by (simp add: key_path_def)
next
  case (Obj ps) with assms(1) show ?thesis by (simp add: key_path_def)
next
  case (Num n)
  with assms show ?thesis
    by (cases q) (auto simp: cacheKey_def key_path_def json_norm_key_elem)
next
  case (Str s)
  with assms show ?thesis
    by (cases q) (auto simp: cacheKey_def key_path_def json_norm_key_elem)
next
  case (Arr xs)
  with assms(1) have kp: "key_elem p" by (simp add: key_path_def)
  show ?thesis
  proof (cases q)
    case (Fn g)
    with Arr assms(3) show ?thesis by (simp add: cacheKey_def)
  next
    case Undefined with assms(2) show ?thesis by (simp add: key_path_def)
  next
    case Null with assms(2) show ?thesis by (simp add: key_path_def)
  next
    case (Bool b) with assms(2) show ?thesis by (simp add: key_path_def)
  next
    case (Obj ps) with assms(2) show ?thesis by (simp add: key_path_def)
  next
    case (Num n)
    with Arr assms(3) show ?thesis by (simp add: cacheKey_def)
  next
    case (Str s)
    with Arr assms(3) show ?thesis by (simp add: cacheKey_def)
  next
    case q: (Arr ys)
    with assms(2) have kq: "key_elem q" by (simp add: key_path_def)
    from Arr q assms(3) have "json_norm p = json_norm q" by (simp add: cacheKey_def)
    with kp kq show ?thesis by (simp add: json_norm_key_elem)
  qed
qed

lemma cache_ok_empty: "cache_ok env Map.empty"
  by (simp add: cache_ok_def)

lemma cache_ok_lookup:
  "cache_ok env cache \<Longrightarrow> key_path path \<Longrightarrow> cache (cacheKey path) = Some ks \<Longrightarrow>
   ks = makePathArray env path"
  by (auto simp: cache_ok_def split: option.splits)

lemma cache_ok_update:
  assumes "cache_ok env cache" and "key_path path"
  shows "cache_ok env (cache(cacheKey path \<mapsto> makePathArray env path))"
  unfolding cache_ok_def
proof (intro allI impI)
  fix q assume q: "key_path q"
  show "case (cache(cacheKey path \<mapsto> makePathArray env path)) (cacheKey q) of
          None \<Rightarrow> True | Some ks \<Rightarrow> ks = makePathArray env q"
  proof (cases "cacheKey q = cacheKey path")
    case True
    with assms(2) q have "q = path" by (simp add: cacheKey_inj)
    then show ?thesis by simp
  next
    case False
    with assms(1) q show ?thesis by (simp add: cache_ok_def)
  qed
qed

lemma getBy_follows:
  assumes "cache_ok env cache" and "key_path path" and "truthy path"
  shows "fst (getBy env cache obj path def) = resolution env (makePathArray env path) obj def"
    and "cache_ok env (snd (getBy env cache obj path def))"
proof -
  show "fst (getBy env cache obj path def) = resolution env (makePathArray env path) obj def"
  proof (cases "cache (cacheKey path)")
    case None
    with assms(3) show ?thesis by (simp add: getBy_def resolution_def split: sum.splits)
  next
    case (Some ks)
    with assms have "ks = makePathArray env path" by (simp add: cache_ok_lookup)
    with Some assms(3) show ?thesis by (simp add: getBy_def resolution_def split: sum.splits)
  qed
  show "cache_ok env (snd (getBy env cache obj path def))"
  proof (cases "cache (cacheKey path)")
    case None
    with assms show ?thesis by (simp add: getBy_def Let_def cache_ok_update)
  next
    case (Some ks)
    with assms show ?thesis by (simp add: getBy_def Let_def)
  qed
qed

subsection \<open>The parsed key sequence\<close>

lemma replace_first_absent: "a \<notin> set s \<Longrightarrow> replace_first a b s = s"
  by (induction s) auto

lemma replace_first_at: "a \<notin> set s \<Longrightarrow> replace_first a b (s @ a # r) = s @ b # r"
  by (induction s) auto

lemma replace_all_absent: "a \<notin> set s \<Longrightarrow> replace_all a r s = s"
  by (induction s) (auto simp: replace_all_def)

lemma replace_all_append: "replace_all a r (xs @ ys) = replace_all a r xs @ replace_all a r ys"
  by (simp add: replace_all_def)

lemma replace_all_Cons: "replace_all a r (x # xs) = (if x = a then r else [x]) @ replace_all a r xs"
  by (simp add: replace_all_def)

lemma split_on_absent: "c \<notin> set k \<Longrightarrow> split_on c k = [k]"
  by (induction k) auto

lemma split_on_at: "c \<notin> set k \<Longrightarrow> split_on c (k @ c # r) = k # split_on c r"
  by (induction k) auto

lemma split_join:
  "ks \<noteq> [] \<Longrightarrow> \<forall>k\<in>set ks. c \<notin> set k \<Longrightarrow> split_on c (join_with c ks) = ks"
proof (induction c ks rule: join_with.induct)
  case (1 c)
  then show ?case by simp
next
  case (2 c p)
  then show ?case by (simp add: split_on_absent)
next
  case (3 c p q ps)
  then show ?case by (simp add: split_on_at)
qed

lemma set_join_with: "x \<in> set (join_with c ks) \<Longrightarrow> x = c \<or> (\<exists>k\<in>set ks. x \<in> set k)"
  by (induction c ks rule: join_with.induct) auto

lemma plain_iff:
  "plain s \<longleftrightarrow> CHR ''.'' \<notin> set s \<and> CHR ''['' \<notin> set s \<and> CHR '']'' \<notin> set s"
  by (auto simp: plain_def list_all_iff)

lemma digit_char_plain:
  "d < 10 \<Longrightarrow> digit_char d \<noteq> CHR ''.'' \<and> digit_char d \<noteq> CHR ''['' \<and> digit_char d \<noteq> CHR '']''"
  by (auto simp: eval_nat_numeral less_Suc_eq digit_char_def)

lemma plain_string_of_nat: "plain (string_of_nat n)"
proof (induction n rule: string_of_nat.induct)
  case (1 n)
  show ?case
  proof (cases "n < 10")
    case True
    then show ?thesis
      by (subst string_of_nat.simps) (simp add: plain_def digit_char_plain)
  next
    case False
    with 1 have "plain (string_of_nat (n div 10))" by simp
    moreover have "n mod 10 < 10" by simp
    ultimately show ?thesis using False
      by (subst string_of_nat.simps) (simp add: plain_def digit_char_plain)
  qed
qed

lemma plain_string_of_int: "plain (string_of_int n)"
  using plain_string_of_nat [of "nat n"] plain_string_of_nat [of "nat (- n)"]
  by (simp add: string_of_int_def plain_def)

lemma plain_js_String: "plain_key k \<Longrightarrow> plain (js_String env k)"
  by (cases k) (simp_all add: plain_string_of_int)

lemma plain_key_leaf: "plain_key k \<Longrightarrow> flattenDeep k = [k]"
  by (cases k) simp_all

lemma plain_key_key_elem: "plain_key k \<Longrightarrow> key_elem k"
  by (cases k) simp_all

lemma flattenDeep_plain_keys: "list_all plain_key ks \<Longrightarrow> concat (map flattenDeep ks) = ks"
  by (induction ks) (simp_all add: plain_key_leaf)

lemma makePathArray_keys:
  assumes "ks \<noteq> []" and "list_all plain_key ks"
  shows "makePathArray env (Arr ks) = map (js_String env) ks"
proof -
  let ?parts = "map (js_String env) ks"
  have pl: "\<forall>p\<in>set ?parts. plain p"
    using assms(2) by (auto simp: list_all_iff plain_js_String)
  have m: "map (\<lambda>d. replace_first CHR ''.'' CHR ''_'' (js_String env d)) ks = ?parts"
    using pl by (intro map_cong refl) (simp add: replace_first_absent plain_iff)
  have o: "CHR ''['' \<notin> set (join_with CHR ''.'' ?parts)"
    using pl by (auto dest!: set_join_with simp: plain_iff)
  have c: "CHR '']'' \<notin> set (join_with CHR ''.'' ?parts)"
    using pl by (auto dest!: set_join_with simp: plain_iff)
  have s: "split_on CHR ''.'' (join_with CHR ''.'' ?parts) = ?parts"
    using assms(1) pl by (intro split_join) (simp_all add: plain_iff)
  show ?thesis
    by (simp add: makePathArray_def flattenDeep_plain_keys [OF assms(2)] m
          replace_all_absent [OF o] replace_all_absent [OF c] s)
qed

lemma split_dotted:
  "plain k \<Longrightarrow> list_all plain ixs \<Longrightarrow>
   split_on CHR ''.'' (k @ concat (map (\<lambda>i. CHR ''.'' # i) ixs)) = k # ixs"
proof (induction ixs arbitrary: k)
  case Nil
  then show ?case by (simp add: split_on_absent plain_iff)
next
  case (Cons i ixs)
  from Cons.prems have "CHR ''.'' \<notin> set k" by (simp add: plain_iff)
  from split_on_at [OF this, of "i @ concat (map (\<lambda>i. CHR ''.'' # i) ixs)"] Cons.IH [of i] Cons.prems
  show ?case by simp
qed

lemma unbracket:
  "list_all plain ixs \<Longrightarrow>
   replace_all CHR '']'' [] (replace_all CHR ''['' ''.'' (concat (map (\<lambda>i. CHR ''['' # i @ '']'') ixs)))
     = concat (map (\<lambda>i. CHR ''.'' # i) ixs)"
proof (induction ixs)
  case Nil
  show ?case by (simp add: replace_all_def)
next
  case (Cons i ixs)
  from Cons.prems have i: "CHR ''['' \<notin> set i" "CHR '']'' \<notin> set i" by (simp_all add: plain_iff)
  from Cons.prems have "list_all plain ixs" by simp
  note rest = Cons.IH [OF this]
  show ?case
    by (simp add: replace_all_append replace_all_Cons replace_all_absent [OF i(1)]
          replace_all_absent [OF i(2)] rest)
qed

lemma makePathArray_bracketed:
  assumes "plain k" and "list_all plain ixs"
  shows "makePathArray env (Str (bracketed k ixs)) = k # ixs"
proof -
  have nodot: "CHR ''.'' \<notin> set (bracketed k ixs)"
    using assms by (auto simp: bracketed_def plain_iff list_all_iff)
  from assms(1) have k: "CHR ''['' \<notin> set k" "CHR '']'' \<notin> set k" by (simp_all add: plain_iff)
  have "replace_all CHR '']'' [] (replace_all CHR ''['' ''.'' (bracketed k ixs))
          = k @ concat (map (\<lambda>i. CHR ''.'' # i) ixs)"
    by (simp add: bracketed_def replace_all_append replace_all_absent [OF k(1)]
          replace_all_absent [OF k(2)] unbracket [OF assms(2)])
  then show ?thesis
    by (simp add: makePathArray_def replace_first_absent [OF nodot] split_dotted [OF assms])
qed

lemma makePathArray_dotted:
  assumes "plain a" and "plain b"
  shows "makePathArray env (Str (a @ ''.'' @ b)) = [a @ ''_'' @ b]"
proof -
  from assms have a: "CHR ''.'' \<notin> set a" by (simp add: plain_iff)
  from assms have n: "CHR ''.'' \<notin> set (a @ ''_'' @ b)" "CHR ''['' \<notin> set (a @ ''_'' @ b)"
    "CHR '']'' \<notin> set (a @ ''_'' @ b)" by (simp_all add: plain_iff)
  have "replace_first CHR ''.'' CHR ''_'' (a @ ''.'' @ b) = a @ ''_'' @ b"
    using replace_first_at [OF a, of "CHR ''_''" b] by simp
  then show ?thesis
    by (simp add: makePathArray_def replace_all_absent [OF n(2)] replace_all_absent [OF n(3)]
          split_on_absent [OF n(1)] del: append.simps)
qed

text \<open>
  Claim C2, as amended. With a consistent cache, for every object and default:
  when the path is truthy (and a string, a number below \<open>10\<^sup>2\<^sup>1\<close>, a function or an
  array of such keys), \<open>getBy\<close> returns the resolution of the key sequence
  \<open>makePathArray path\<close>: the value reached by reading the keys one after the other
  (own or inherited properties), and the default whenever a read raises or the value
  reached is \<^verbatim>\<open>undefined\<close>; it raises nothing and keeps the cache consistent. When
  the path is falsy (the empty string, the number 0) the guard
  \<^verbatim>\<open>if (!path) return obj\<close> returns the object itself, whatever the default. The key
  sequence separates keys at the elements of an array path and at brackets, not at a
  period: for a non-empty array of plain keys it is the keys, each written as a string;
  for a string in bracket notation \<^verbatim>\<open>k[i1][i2]...\<close> it is \<open>k, i1, i2, ...\<close>; and for
  a string \<^verbatim>\<open>a.b\<close> with one period it is the single key \<^verbatim>\<open>a_b\<close>.
\<close>

theorem getBy_resolves:
  assumes "cache_ok env cache"
  shows "(key_path path \<and> truthy path \<longrightarrow>
            fst (getBy env cache obj path def) = resolution env (makePathArray env path) obj def
            \<and> cache_ok env (snd (getBy env cache obj path def)))
         \<and> (\<not> truthy path \<longrightarrow> getBy env cache obj path def = (obj, cache))
         \<and> (ks \<noteq> [] \<and> list_all plain_key ks \<longrightarrow>
              fst (getBy env cache obj (Arr ks) def) = resolution env (map (js_String env) ks) obj def)
         \<and> (plain k \<and> list_all plain ixs \<and> (k \<noteq> [] \<or> ixs \<noteq> []) \<longrightarrow>
              fst (getBy env cache obj (Str (bracketed k ixs)) def) = resolution env (k # ixs) obj def)
         \<and> (plain a \<and> plain b \<longrightarrow>
              fst (getBy env cache obj (Str (a @ ''.'' @ b)) def)
                = resolution env [a @ ''_'' @ b] obj def)"
proof (intro conjI impI)
  assume "key_path path \<and> truthy path"
  with getBy_follows [OF assms, of path obj def]
  show "fst (getBy env cache obj path def) = resolution env (makePathArray env path) obj def"
    and "cache_ok env (snd (getBy env cache obj path def))" by simp_all
next
  assume "\<not> truthy path"
  then show "getBy env cache obj path def = (obj, cache)" by (simp add: getBy_def)
next
  assume h: "ks \<noteq> [] \<and> list_all plain_key ks"
  then have "key_path (Arr ks)"
    by (auto simp: key_path_def list_all_iff plain_key_key_elem)
  from getBy_follows(1) [OF assms this, of obj def] h
  show "fst (getBy env cache obj (Arr ks) def) = resolution env (map (js_String env) ks) obj def"
    by (simp add: makePathArray_keys)
next
  assume h: "plain k \<and> list_all plain ixs \<and> (k \<noteq> [] \<or> ixs \<noteq> [])"
  then have t: "truthy (Str (bracketed k ixs))" by (cases ixs) (auto simp: bracketed_def)
  have "key_path (Str (bracketed k ixs))" by (simp add: key_path_def)
  from getBy_follows(1) [OF assms this t, of obj def] h
  show "fst (getBy env cache obj (Str (bracketed k ixs)) def) = resolution env (k # ixs) obj def"
    by (simp add: makePathArray_bracketed)
next
  assume h: "plain a \<and> plain b"
  have "key_path (Str (a @ ''.'' @ b))" "truthy (Str (a @ ''.'' @ b))"
    by (simp_all add: key_path_def)
  from getBy_follows(1) [OF assms this, of obj def] h makePathArray_dotted [of a b env]
  show "fst (getBy env cache obj (Str (a @ ''.'' @ b)) def) = resolution env [a @ ''_'' @ b] obj def"
    by simp
qed

theorem getBy_resolves_witness:
  "fst (getBy bare_env Map.empty (Obj [(''a'', Obj [(''b'', Num 1)]), (''c'', Null)])
          (Arr [Str ''a'', Str ''b'']) (Num 7)) = Num 1
   \<and> fst (getBy bare_env Map.empty (Obj [(''a'', Obj [(''b'', Num 1)]), (''c'', Null)])
          (Arr [Str ''c'', Str ''b'']) (Num 7)) = Num 7
   \<and> fst (getBy bare_env Map.empty (Obj [(''a'', Arr [Num 4, Num 5])]) (Str ''a[1]'') (Num 7)) = Num 5
   \<and> fst (getBy bare_env Map.empty (Obj [(''a_b'', Num 2), (''a'', Obj [(''b'', Num 1)])])
          (Str ''a.b'') (Num 7)) = Num 2
   \<and> getBy bare_env Map.empty (Obj [(''a'', Null)]) (Str []) (Num 7) = (Obj [(''a'', Null)], Map.empty)"
  using getBy_resolves [OF cache_ok_empty, of "Str []" bare_env "Obj [(''a'', Null)]" "Num 7"
          "[Str ''a'', Str ''b'']" "''a''" "[''1'']" "''a''" "''b''"]
        getBy_resolves [OF cache_ok_empty, of "Str []" bare_env
          "Obj [(''a'', Obj [(''b'', Num 1)]), (''c'', Null)]" "Num 7"
          "[Str ''a'', Str ''b'']" "''a''" "[''1'']" "''a''" "''b''"]
        getBy_resolves [OF cache_ok_empty, of "Str []" bare_env
          "Obj [(''a'', Obj [(''b'', Num 1)]), (''c'', Null)]" "Num 7"
          "[Str ''c'', Str ''b'']" "''a''" "[''1'']" "''a''" "''b''"]
        getBy_resolves [OF cache_ok_empty, of "Str []" bare_env
          "Obj [(''a'', Arr [Num 4, Num 5])]" "Num 7"
          "[Str ''a'']" "''a''" "[''1'']" "''a''" "''b''"]
        getBy_resolves [OF cache_ok_empty, of "Str []" bare_env
          "Obj [(''a_b'', Num 2), (''a'', Obj [(''b'', Num 1)])]" "Num 7"
          "[Str ''a'']" "''a''" "[''1'']" "''a''" "''b''"]
  by (simp add: resolution_def plain_def bracketed_def bare_env_def array_index_def is_digit_def
        nat_of_digits_def)

text \<open>
  The claim as stated fails for a dotted string and at the empty path. Following the
  keys \<^verbatim>\<open>a\<close>, \<^verbatim>\<open>b\<close> through \<^verbatim>\<open>{a: {b: 1}}\<close> reaches 1, yet
  \<^verbatim>\<open>getBy({a: {b: 1}}, 'a.b', 7)\<close> returns the default 7: the path is read as the
  single key \<^verbatim>\<open>a_b\<close>. Resolving the key sequence of \<^verbatim>\<open>''\<close> against \<^verbatim>\<open>undefined\<close>
  raises, yet \<^verbatim>\<open>getBy(undefined, '', 5)\<close> returns \<^verbatim>\<open>undefined\<close>, not the default.
\<close>

theorem getBy_path_counterexample:
  "reduce_path bare_env [''a'', ''b''] (Obj [(''a'', Obj [(''b'', Num 1)])]) = Inr (Num 1)
   \<and> fst (getBy bare_env Map.empty (Obj [(''a'', Obj [(''b'', Num 1)])]) (Str ''a.b'') (Num 7)) = Num 7
   \<and> reduce_path bare_env (makePathArray bare_env (Str [])) Undefined = Inl TypeError
   \<and> fst (getBy bare_env Map.empty Undefined (Str []) (Num 5)) = Undefined"
  by (simp add: getBy_def makePathArray_def replace_all_def bare_env_def)

section \<open>Properties of expandRows\<close>

lemma truthy_js_or: "truthy (js_or a b) = (truthy a \<or> truthy b)"
  by (simp add: js_or_def)

lemma getProp_truthy: "truthy v \<Longrightarrow> \<exists>x. getProp env v k = Inr x"
  by (cases v) (auto split: option.splits)

lemma handleRow_None:
  "handleRow env opts (Row i orig None ie ce) =
     (Row i orig None (expansion_of env opts i orig) Undefined,
      [Row i orig None (expansion_of env opts i orig) Undefined])"
  by (simp add: Let_def)

lemma handleRow_collapsed:
  "\<not> (expandSubRows opts \<and> ss \<noteq> [] \<and> truthy (expansion_of env opts i orig)) \<Longrightarrow>
   handleRow env opts (Row i orig (Some ss) ie ce) =
     (Row i orig (Some ss) (expansion_of env opts i orig) (Bool (ss \<noteq> [])),
      [Row i orig (Some ss) (expansion_of env opts i orig) (Bool (ss \<noteq> []))])"
  by (auto simp add: Let_def)

lemma handleRow_expanded:
  "expandSubRows opts \<Longrightarrow> ss \<noteq> [] \<Longrightarrow> truthy (expansion_of env opts i orig) \<Longrightarrow>
   handleRow env opts (Row i orig (Some ss) ie ce) =
     (Row i orig (Some (map (\<lambda>s. fst (handleRow env opts s)) ss)) (expansion_of env opts i orig) (Bool True),
      Row i orig (Some (map (\<lambda>s. fst (handleRow env opts s)) ss)) (expansion_of env opts i orig) (Bool True)
        # concat (map (\<lambda>s. snd (handleRow env opts s)) ss))"
  by (simp add: Let_def comp_def)

declare handleRow.simps [simp del]

lemma handle_strip: "strip (fst (handleRow env opts r)) = strip r"
proof (induction r)
  case (Row i orig subs ie ce)
  show ?case
  proof (cases subs)
    case None
    then show ?thesis by (simp add: handleRow_None)
  next
    case (Some ss)
    show ?thesis
    proof (cases "expandSubRows opts \<and> ss \<noteq> [] \<and> truthy (expansion_of env opts i orig)")
      case True
      have "map (\<lambda>s. strip (fst (handleRow env opts s))) ss = map strip ss"
        using Row.IH Some by (intro map_cong) auto
      with True Some show ?thesis by (simp add: handleRow_expanded comp_def)
    next
      case False
      with Some show ?thesis by (simp add: handleRow_collapsed)
    qed
  qed
qed

lemma handle_marked: "list_all (marked env opts) (snd (handleRow env opts r))"
proof (induction r)
  case (Row i orig subs ie ce)
  show ?case
  proof (cases subs)
    case None
    then show ?thesis by (simp add: handleRow_None marked_def)
  next
    case (Some ss)
    show ?thesis
    proof (cases "expandSubRows opts \<and> ss \<noteq> [] \<and> truthy (expansion_of env opts i orig)")
      case True
      have "\<forall>s\<in>set ss. list_all (marked env opts) (snd (handleRow env opts s))"
        using Row.IH Some by auto
      with True Some show ?thesis
        by (simp add: handleRow_expanded marked_def list_all_iff)
    next
      case False
      with Some show ?thesis by (simp add: handleRow_collapsed marked_def)
    qed
  qed
qed

lemma preorder_ancestors:
  "p \<in> set (preorder anc r) \<Longrightarrow> set anc \<subseteq> set (fst p)"
proof (induction r arbitrary: anc p)
  case (Row i orig subs ie ce)
  show ?case
  proof (cases subs)
    case None
    with Row.prems show ?thesis by simp
  next
    case (Some ss)
    with Row.prems consider "p = (anc, Row i orig subs ie ce)"
      | s where "s \<in> set ss" "p \<in> set (preorder (Row i orig subs ie ce # anc) s)"
      by auto
    then show ?thesis
    proof cases
      case 1 then show ?thesis by simp
    next
      case 2
      from Some have "ss \<in> set_option subs" by simp
      from Row.IH [OF this 2] show ?thesis by auto
    qed
  qed
qed

lemma hidden_subtree:
  assumes "\<not> list_all (is_expanded env opts) anc"
  shows "filter (ancestors_expanded env opts) (concat (map (preorder anc) ss)) = []"
proof -
  have "\<not> ancestors_expanded env opts p" if "p \<in> set (preorder anc s)" for p s
  proof -
    from that have "set anc \<subseteq> set (fst p)" by (rule preorder_ancestors)
    with assms show ?thesis by (auto simp: ancestors_expanded_def list_all_iff)
  qed
  then show ?thesis by (auto simp: filter_empty_conv)
qed

lemma handle_preorder:
  "expandSubRows opts \<Longrightarrow> list_all (is_expanded env opts) anc \<Longrightarrow>
     map strip (snd (handleRow env opts r)) =
     map (strip \<circ> snd) (filter (ancestors_expanded env opts) (preorder anc r))"
proof (induction r arbitrary: anc)
  case (Row i orig subs ie ce)
  let ?r = "Row i orig subs ie ce"
  have self: "ancestors_expanded env opts (anc, ?r)"
    using Row.prems by (simp add: ancestors_expanded_def)
  show ?case
  proof (cases subs)
    case None
    with self show ?thesis by (simp add: handleRow_None)
  next
    case (Some ss)
    show ?thesis
    proof (cases "truthy (expansion_of env opts i orig)")
      case True
      then have "is_expanded env opts ?r" by (simp add: is_expanded_def)
      with Row.prems have anc': "list_all (is_expanded env opts) (?r # anc)" by simp
      show ?thesis
      proof (cases "ss = []")
        case True
        with Some self show ?thesis by (simp add: handleRow_collapsed)
      next
        case False
        have each: "map strip (snd (handleRow env opts s)) =
            map (strip \<circ> snd) (filter (ancestors_expanded env opts) (preorder (?r # anc) s))"
          if "s \<in> set ss" for s
        proof -
          from Some have "ss \<in> set_option subs" by simp
          from Row.IH [OF this that Row.prems(1) anc'] show ?thesis .
        qed
        have sub: "map strip (concat (map (\<lambda>s. snd (handleRow env opts s)) ss)) =
            map (strip \<circ> snd)
              (filter (ancestors_expanded env opts) (concat (map (preorder (?r # anc)) ss)))"
          using each by (simp add: map_concat filter_concat comp_def cong: map_cong)
        have st: "map (\<lambda>s. strip (fst (handleRow env opts s))) ss = map strip ss"
          by (simp add: handle_strip)
        from Some False True Row.prems self sub st show ?thesis
          by (simp add: handleRow_expanded comp_def)
      qed
    next
      case False
      then have "\<not> list_all (is_expanded env opts) (?r # anc)"
        by (simp add: is_expanded_def)
      then have "filter (ancestors_expanded env opts) (concat (map (preorder (?r # anc)) ss)) = []"
        by (rule hidden_subtree)
      with Some False self show ?thesis by (simp add: handleRow_collapsed)
    qed
  qed
qed

lemma handle_no_descent:
  "\<not> expandSubRows opts \<Longrightarrow> snd (handleRow env opts r) = [fst (handleRow env opts r)]"
  by (cases r; cases "subRows r") (simp_all add: handleRow_None handleRow_collapsed)

text \<open>
  Claim C6, as amended. \<open>expandRows\<close> marks every row it returns: \<open>isExpanded\<close> is
  \<^verbatim>\<open>(row.original && row.original[manualExpandedKey]) || expanded[row.id]\<close>, truthy
  exactly when the raw item's manual flag or the state entry of the row's id is truthy
  (both are property reads: an id or key that names an inherited property reads that
  one), and \<open>canExpand\<close> is \<^verbatim>\<open>true\<close> exactly when \<open>subRows\<close> is a non-empty array.
  When \<open>expandSubRows\<close> is true (its default) the returned sequence is the pre-order
  walk of the row trees restricted to the rows all of whose ancestors are expanded: an
  expanded row is followed at once by its sub-rows' walks, and nothing below a collapsed
  row is returned. When \<open>expandSubRows\<close> is false the returned sequence is the
  top-level rows alone.
\<close>

theorem expandRows_preorder:
  "(expandSubRows opts \<longrightarrow>
      map strip (expandRows env rows opts) =
      map (strip \<circ> snd) (filter (ancestors_expanded env opts) (concat (map (preorder []) rows))))
   \<and> (\<not> expandSubRows opts \<longrightarrow> map strip (expandRows env rows opts) = map strip rows)
   \<and> list_all (marked env opts) (expandRows env rows opts)"
proof (intro conjI impI)
  assume e: "expandSubRows opts"
  have "map strip (snd (handleRow env opts r)) =
        map (strip \<circ> snd) (filter (ancestors_expanded env opts) (preorder [] r))" for r
    using handle_preorder [OF e, of env "[]" r] by simp
  then show "map strip (expandRows env rows opts) =
      map (strip \<circ> snd) (filter (ancestors_expanded env opts) (concat (map (preorder []) rows)))"
    by (simp add: expandRows_def map_concat filter_concat comp_def)
next
  assume "\<not> expandSubRows opts"
  then show "map strip (expandRows env rows opts) = map strip rows"
    by (induction rows) (simp_all add: expandRows_def handle_no_descent handle_strip)
next
  show "list_all (marked env opts) (expandRows env rows opts)"
    by (simp add: expandRows_def list_all_iff handle_marked [unfolded list_all_iff])
qed

lemma marked_flags:
  "marked env opts r \<Longrightarrow>
     truthy (isExpanded r) =
       (truthy (manual_flag env (original r) (manualExpandedKey opts))
        \<or> truthy (state_entry env (expanded opts) (row_id r)))
     \<and> (canExpand r = Bool True) = (\<exists>ss. subRows r = Some ss \<and> ss \<noteq> [])"
  by (auto simp: marked_def expansion_of_def truthy_js_or split: option.splits)

theorem expandRows_preorder_witness:
  "map strip
     (expandRows bare_env
        [Row ''0'' (Obj [(''open'', Bool True)])
           (Some [Row ''0.0'' Null (Some [Row ''0.0.0'' Null None Undefined Undefined])
                    Undefined Undefined,
                  Row ''0.1'' Null None Undefined Undefined])
           Undefined Undefined,
         Row ''1'' Undefined (Some [Row ''1.0'' Null None Undefined Undefined])
           Undefined Undefined]
        \<lparr>manualExpandedKey = ''open'', expanded = [(''1'', Num 1)], expandSubRows = True\<rparr>)
   = map strip
       [Row ''0'' (Obj [(''open'', Bool True)])
           (Some [Row ''0.0'' Null (Some [Row ''0.0.0'' Null None Undefined Undefined])
                    Undefined Undefined,
                  Row ''0.1'' Null None Undefined Undefined])
           Undefined Undefined,
        Row ''0.0'' Null (Some [Row ''0.0.0'' Null None Undefined Undefined])
           Undefined Undefined,
        Row ''0.1'' Null None Undefined Undefined,
        Row ''1'' Undefined (Some [Row ''1.0'' Null None Undefined Undefined])
           Undefined Undefined,
        Row ''1.0'' Null None Undefined Undefined]"
  using expandRows_preorder
    [of "\<lparr>manualExpandedKey = ''open'', expanded = [(''1'', Num 1)], expandSubRows = True\<rparr>"
        bare_env
        "[Row ''0'' (Obj [(''open'', Bool True)])
           (Some [Row ''0.0'' Null (Some [Row ''0.0.0'' Null None Undefined Undefined])
                    Undefined Undefined,
                  Row ''0.1'' Null None Undefined Undefined])
           Undefined Undefined,
         Row ''1'' Undefined (Some [Row ''1.0'' Null None Undefined Undefined])
           Undefined Undefined]"]
  by (simp add: ancestors_expanded_def is_expanded_def expansion_of_def manual_flag_def
        state_entry_def js_or_def bare_env_def)

text \<open>
  The claim as stated fails when \<open>expandSubRows\<close> is false: row \<^verbatim>\<open>0\<close> is marked
  expanded and has a sub-row, yet the returned sequence is that row alone.
\<close>

theorem expandRows_gate_counterexample:
  "expandRows bare_env
     [Row ''0'' Undefined (Some [Row ''0.0'' Undefined None Undefined Undefined])
        Undefined Undefined]
     \<lparr>manualExpandedKey = ''open'', expanded = [(''0'', Bool True)], expandSubRows = False\<rparr>
   = [Row ''0'' Undefined (Some [Row ''0.0'' Undefined None Undefined Undefined])
        (Bool True) (Bool True)]"
  by (simp add: expandRows_def handleRow_collapsed expansion_of_def manual_flag_def
        state_entry_def js_or_def)

text \<open>
  An inherited property counts as a state entry: where plain objects inherit
  \<^verbatim>\<open>constructor\<close>, the row with that id is expanded by the empty state.
\<close>

lemma expanded_by_inherited_entry:
  "expandRows
     \<lparr>inherited = (\<lambda>v k. if k = ''constructor'' then Fn ''function Object() { [native code] }''
                          else Undefined),
      exponent_form = (\<lambda>n. [])\<rparr>
     [Row ''constructor'' Undefined (Some [Row ''constructor.0'' Undefined None Undefined Undefined])
        Undefined Undefined]
     \<lparr>manualExpandedKey = ''open'', expanded = [], expandSubRows = True\<rparr>
   = [Row ''constructor'' Undefined
        (Some [Row ''constructor.0'' Undefined None Undefined Undefined])
        (Fn ''function Object() { [native code] }'') (Bool True),
      Row ''constructor.0'' Undefined None Undefined Undefined]"
  by (simp add: expandRows_def handleRow_expanded handleRow_None expansion_of_def manual_flag_def
        state_entry_def js_or_def)


section \<open>Properties of makeHeaderGroups\<close>

lemma pdepth_le_max_depth: "c \<in> set cs \<Longrightarrow> pdepth c \<le> max_depth cs"
  by (induction cs) (auto simp: max_depth_def)

lemma max_depth_less: "0 < M \<Longrightarrow> \<forall>c\<in>set cs. pdepth c < M \<Longrightarrow> max_depth cs < M"
  by (induction cs) (auto simp: max_depth_def)

lemma pdepth_push_header [simp]: "pdepth (push_header p c) = pdepth p"
  by (cases p) (simp add: push_header_def)

lemma pdepth_parent: "pdepth c = (case parent c of None \<Rightarrow> 0 | Some p \<Rightarrow> Suc (pdepth p))"
  by (cases c) simp

lemma pdepth_newParent:
  assumes "newParent_of dc (Some t) uid c = Inr np" and "merged_parent dc t = None"
  shows "case parent c of None \<Rightarrow> pdepth np = 0 | Some p \<Rightarrow> Suc (pdepth np) = pdepth c"
proof (cases "parent c")
  case None
  with assms show ?thesis
    by (auto simp: newParent_of_def)
next
  case (Some p)
  with assms have "np = Column (col_id p @ ''_'' @ string_of_nat uid) (Some (col_id p)) (parent p)
                 (Some [c]) (placeholderOf p) (col_props p)"
    by (simp add: newParent_of_def)
  then have "pdepth np = pdepth p" by (simp add: pdepth_parent [of p])
  with Some show ?thesis by (simp add: pdepth_parent [of c])
qed

lemma scan_columns_without_parents:
  "scan_columns dc udc False cols (ps, uid, hdrs) = Inr (ps, uid, hdrs @ cols)"
  by (induction cols arbitrary: hdrs) simp_all

lemma scan_columns_depth:
  assumes "scan_columns dc (Some t) True cols (ps0, u0, h0) = Inr (ps, u, h)"
    and np0: "merged_parent dc t = None"
    and "\<forall>p\<in>set ps0. pdepth p < M" and "\<forall>c\<in>set cols. pdepth c \<le> M" and "0 < M"
  shows "(\<forall>p\<in>set ps. pdepth p < M) \<and> length ps \<le> length ps0 + length cols"
  using assms(1,3,4,5)
proof (induction cols arbitrary: ps0 u0 h0)
  case Nil
  then show ?case by simp
next
  case (Cons c cols)
  from Cons.prems(1) obtain np where np: "newParent_of dc (Some t) u0 c = Inr np"
    by (auto split: sum.splits)
  have dnp: "pdepth np < M"
    using pdepth_newParent [OF np np0] Cons.prems(3,4) by (cases "parent c") auto
  show ?case
  proof (cases "ps0 \<noteq> [] \<and> originalId (last ps0) = originalId np")
    case True
    with Cons.prems(1) np have run:
      "scan_columns dc (Some t) True cols (butlast ps0 @ [push_header (last ps0) c], Suc u0, h0 @ [c])
         = Inr (ps, u, h)" by simp
    have "\<forall>p\<in>set (butlast ps0 @ [push_header (last ps0) c]). pdepth p < M"
      using Cons.prems(2) True by (auto dest: in_set_butlastD)
    from Cons.IH [OF run this] Cons.prems(3,4) True show ?thesis by auto
  next
    case False
    with Cons.prems(1) np have run:
      "scan_columns dc (Some t) True cols (ps0 @ [np], Suc u0, h0 @ [c]) = Inr (ps, u, h)"
      by auto
    have "\<forall>p\<in>set (ps0 @ [np]). pdepth p < M" using Cons.prems(2) dnp by auto
    from Cons.IH [OF run this] Cons.prems(3,4) show ?thesis by auto
  qed
qed

lemma max_depth_pos: "list_ex (\<lambda>d. parent d \<noteq> None) cs \<Longrightarrow> 0 < max_depth cs"
proof -
  assume "list_ex (\<lambda>d. parent d \<noteq> None) cs"
  then obtain c where c: "c \<in> set cs" "parent c \<noteq> None" by (auto simp: list_ex_iff)
  then have "0 < pdepth c" by (auto simp: pdepth_parent [of c])
  with pdepth_le_max_depth [OF c(1)] show ?thesis by simp
qed


lemma concat_runs: "concat (runs key xs) = xs"
  by (induction key xs rule: runs.induct) simp_all

lemma newParent_facts:
  assumes "newParent_of dc udc uid c = Inr np"
  shows "headers np = Some [c]" and "originalId np = Some (parent_key c)"
proof -
  show "headers np = Some [c]"
  proof (cases "parent c")
    case None
    with assms show ?thesis by (cases udc) (auto simp: newParent_of_def)
  next
    case (Some p)
    with assms show ?thesis by (auto simp: newParent_of_def)
  qed
  show "originalId np = Some (parent_key c)"
  proof (cases "parent c")
    case None
    with assms show ?thesis by (cases udc) (auto simp: newParent_of_def parent_key_def)
  next
    case (Some p)
    with assms show ?thesis by (auto simp: newParent_of_def parent_key_def)
  qed
qed

lemma hdrs_of_push_header: "hdrs_of (push_header p c) = hdrs_of p @ [c]"
  by (cases p) (simp add: push_header_def hdrs_of_def)

lemma originalId_push_header: "originalId (push_header p c) = originalId p"
  by (cases p) (simp add: push_header_def)

lemma headers_push_header: "\<exists>cs. headers (push_header p c) = Some cs"
  by (cases p) (simp add: push_header_def)

lemma scan_columns_headers:
  "scan_columns dc udc hp cols (ps0, u0, h0) = Inr (ps, u, h) \<Longrightarrow> h = h0 @ cols"
proof (induction cols arbitrary: ps0 u0 h0)
  case Nil
  then show ?case by simp
next
  case (Cons c cols)
  show ?case
  proof (cases hp)
    case False
    with Cons.prems have "scan_columns dc udc hp cols (ps0, u0, h0 @ [c]) = Inr (ps, u, h)"
      by simp
    from Cons.IH [OF this] show ?thesis by simp
  next
    case True
    with Cons.prems obtain ps1 where
      "scan_columns dc udc hp cols (ps1, Suc u0, h0 @ [c]) = Inr (ps, u, h)"
      by (auto split: sum.splits if_splits)
    from Cons.IH [OF this] show ?thesis by simp
  qed
qed

lemma map_snoc_split: "xs \<noteq> [] \<Longrightarrow> map f xs = map f (butlast xs) @ [f (last xs)]"
  by (induction xs) auto

lemma scan_columns_runs:
  assumes "scan_columns dc udc True cols (ps0, u0, h0) = Inr (ps, u, h)"
    and "ps0 \<noteq> []" and "originalId (last ps0) = Some k"
  shows "map hdrs_of ps =
           map hdrs_of (butlast ps0) @
           (hdrs_of (last ps0) @ takeWhile (\<lambda>c. parent_key c = k) cols)
             # runs parent_key (dropWhile (\<lambda>c. parent_key c = k) cols)
         \<and> map originalId ps =
           map originalId ps0 @
           map (\<lambda>r. Some (parent_key (hd r))) (runs parent_key (dropWhile (\<lambda>c. parent_key c = k) cols))"
  using assms
proof (induction cols arbitrary: ps0 u0 h0 k)
  case Nil
  then show ?case using map_snoc_split [of ps0 hdrs_of] by simp
next
  case (Cons c cols)
  from Cons.prems(1) obtain np where np: "newParent_of dc udc u0 c = Inr np"
    by (auto split: sum.splits)
  note f = newParent_facts [OF np]
  have split0: "map hdrs_of ps0 = map hdrs_of (butlast ps0) @ [hdrs_of (last ps0)]"
    using Cons.prems(2) by (rule map_snoc_split)
  show ?case
  proof (cases "parent_key c = k")
    case True
    let ?ps1 = "butlast ps0 @ [push_header (last ps0) c]"
    from True Cons.prems np f have run:
      "scan_columns dc udc True cols (?ps1, Suc u0, h0 @ [c]) = Inr (ps, u, h)" by simp
    have l: "originalId (last ?ps1) = Some k"
      using Cons.prems(3) by (simp add: originalId_push_header)
    have o: "map originalId ?ps1 = map originalId ps0"
      using map_snoc_split [OF Cons.prems(2), of originalId]
      by (simp add: originalId_push_header)
    from Cons.IH [OF run _ l] True o show ?thesis
      by (simp add: hdrs_of_push_header)
  next
    case False
    let ?ps1 = "ps0 @ [np]"
    from False Cons.prems np f have run:
      "scan_columns dc udc True cols (?ps1, Suc u0, h0 @ [c]) = Inr (ps, u, h)" by auto
    have l: "originalId (last ?ps1) = Some (parent_key c)" using f by simp
    have hnp: "hdrs_of np = [c]" using f by (simp add: hdrs_of_def)
    from Cons.IH [OF run _ l] False hnp f(2) split0 show ?thesis
      by simp
  qed
qed

lemma scan_columns_runs_start:
  assumes "scan_columns dc udc True cols ([], u0, h0) = Inr (ps, u, h)"
  shows "map hdrs_of ps = runs parent_key cols
         \<and> map originalId ps = map (\<lambda>r. Some (parent_key (hd r))) (runs parent_key cols)"
proof (cases cols)
  case Nil
  with assms show ?thesis by simp
next
  case (Cons c rest)
  from assms Cons obtain np where np: "newParent_of dc udc u0 c = Inr np"
    by (auto split: sum.splits)
  note f = newParent_facts [OF np]
  from assms Cons np have run:
    "scan_columns dc udc True rest ([np], Suc u0, h0 @ [c]) = Inr (ps, u, h)" by simp
  from scan_columns_runs [OF run, of "parent_key c"] f Cons show ?thesis
    by (simp add: hdrs_of_def)
qed

lemma scan_columns_have_headers:
  assumes "scan_columns dc udc True cols (ps0, u0, h0) = Inr (ps, u, h)"
    and "\<forall>p\<in>set ps0. headers p \<noteq> None"
  shows "\<forall>p\<in>set ps. headers p \<noteq> None"
  using assms
proof (induction cols arbitrary: ps0 u0 h0)
  case Nil
  then show ?case by simp
next
  case (Cons c cols)
  from Cons.prems(1) obtain np where np: "newParent_of dc udc u0 c = Inr np"
    by (auto split: sum.splits)
  note f = newParent_facts [OF np]
  show ?case
  proof (cases "ps0 \<noteq> [] \<and> originalId (last ps0) = originalId np")
    case True
    with Cons.prems(1) np have run:
      "scan_columns dc udc True cols (butlast ps0 @ [push_header (last ps0) c], Suc u0, h0 @ [c])
         = Inr (ps, u, h)" by simp
    have "\<forall>p\<in>set (butlast ps0 @ [push_header (last ps0) c]). headers p \<noteq> None"
      using Cons.prems(2) by (auto simp: headers_push_header dest: in_set_butlastD)
    from Cons.IH [OF run this] show ?thesis .
  next
    case False
    with Cons.prems(1) np have run:
      "scan_columns dc udc True cols (ps0 @ [np], Suc u0, h0 @ [c]) = Inr (ps, u, h)"
      by auto
    have "\<forall>p\<in>set (ps0 @ [np]). headers p \<noteq> None" using Cons.prems(2) f by auto
    from Cons.IH [OF run this] show ?thesis .
  qed
qed

lemma scan_columns_succeeds:
  "\<exists>r. scan_columns dc (Some t) hp cols (ps0, u0, h0) = Inr r"
proof (induction cols arbitrary: ps0 u0 h0)
  case Nil
  show ?case by simp
next
  case (Cons c cols)
  have "\<exists>np. newParent_of dc (Some t) u0 c = Inr np"
    by (cases "parent c") (auto simp: newParent_of_def)
  then obtain np where "newParent_of dc (Some t) u0 c = Inr np" ..
  with Cons.IH show ?case by (cases hp) simp_all
qed


lemma build_groups_Nil: "build_groups dc udc [] uid hgs = Some (Inr hgs)"
  by (simp add: build_groups.simps)

lemma build_groups_step:
  "scanColumns \<noteq> [] \<Longrightarrow>
   scan_columns dc udc (list_ex (\<lambda>d. parent d \<noteq> None) scanColumns) scanColumns ([], uid, [])
     = Inr (ps, uid', hdrs) \<Longrightarrow>
   build_groups dc udc scanColumns uid hgs =
     build_groups dc udc ps uid' (hgs @ [\<lparr>group_headers = hdrs\<rparr>])"
  by (subst build_groups.simps) simp

lemma build_groups_error:
  "scanColumns \<noteq> [] \<Longrightarrow>
   scan_columns dc udc (list_ex (\<lambda>d. parent d \<noteq> None) scanColumns) scanColumns ([], uid, [])
     = Inl e \<Longrightarrow>
   build_groups dc udc scanColumns uid hgs = Some (Inl e)"
  by (subst build_groups.simps) simp

text \<open>
  With a default column that has no \<open>parent\<close> entry the loop ends: a round with no
  parent among its columns produces no parent column, and a round with parents
  produces no more columns than it scans, each with a shorter chain of parents than the
  longest of the round.
\<close>

lemma round_decreases:
  assumes np0: "merged_parent dc t = None" and ne: "scanColumns \<noteq> []"
    and run: "scan_columns dc (Some t) (list_ex (\<lambda>d. parent d \<noteq> None) scanColumns) scanColumns
                ([], uid, []) = Inr (parentColumns, uid', hdrs)"
  shows "length parentColumns + max_depth parentColumns < length scanColumns + max_depth scanColumns"
proof (cases "list_ex (\<lambda>d. parent d \<noteq> None) scanColumns")
  case True
  with run have r: "scan_columns dc (Some t) True scanColumns ([], uid, []) = Inr (parentColumns, uid', hdrs)"
    by auto
  from scan_columns_depth [OF r np0, of "max_depth scanColumns"] max_depth_pos [OF True]
  have "(\<forall>p\<in>set parentColumns. pdepth p < max_depth scanColumns)"
    and "length parentColumns \<le> length scanColumns"
    by (auto simp: pdepth_le_max_depth)
  with max_depth_less [of "max_depth scanColumns" parentColumns] max_depth_pos [OF True]
  show ?thesis by simp
next
  case False
  with run have "parentColumns = []"
    by (auto simp: scan_columns_without_parents)
  with ne show ?thesis by (cases scanColumns) (simp_all add: max_depth_def)
qed

lemma build_groups_returns:
  assumes np0: "merged_parent dc t = None"
  shows "\<exists>res. build_groups dc (Some t) scanColumns uid hgs = Some (Inr res)"
proof (induction "length scanColumns + max_depth scanColumns" arbitrary: scanColumns uid hgs
        rule: less_induct)
  case less
  show ?case
  proof (cases "scanColumns = []")
    case True
    then show ?thesis by (simp add: build_groups_Nil)
  next
    case False
    obtain ps uid' hdrs where r:
      "scan_columns dc (Some t) (list_ex (\<lambda>d. parent d \<noteq> None) scanColumns) scanColumns ([], uid, [])
        = Inr (ps, uid', hdrs)"
      using scan_columns_succeeds by (metis prod_cases3)
    from round_decreases [OF np0 False r]
    have "\<exists>res. build_groups dc (Some t) ps uid' (hgs @ [\<lparr>group_headers = hdrs\<rparr>]) = Some (Inr res)"
      by (rule less)
    with build_groups_step [OF False r] show ?thesis by simp
  qed
qed

text \<open>
  What holds of every run that ends is proved round by round: of a run over no
  columns, of a run whose first round raises, and of a run whose first round succeeds,
  from what holds of the rest of the run.
\<close>

lemma build_groups_rounds:
  assumes run: "build_groups dc udc scanColumns uid hgs = Some out"
    and finished: "\<And>uid hgs. P [] uid hgs (Inr hgs)"
    and raised: "\<And>scan uid hgs e.
        scan \<noteq> [] \<Longrightarrow>
        scan_columns dc udc (list_ex (\<lambda>d. parent d \<noteq> None) scan) scan ([], uid, []) = Inl e \<Longrightarrow>
        P scan uid hgs (Inl e)"
    and step: "\<And>scan uid hgs ps uid' hdrs out.
        scan \<noteq> [] \<Longrightarrow>
        scan_columns dc udc (list_ex (\<lambda>d. parent d \<noteq> None) scan) scan ([], uid, [])
          = Inr (ps, uid', hdrs) \<Longrightarrow>
        (ps = [] \<longrightarrow> out = Inr (hgs @ [\<lparr>group_headers = hdrs\<rparr>])) \<Longrightarrow>
        P ps uid' (hgs @ [\<lparr>group_headers = hdrs\<rparr>]) out \<Longrightarrow>
        P scan uid hgs out"
  shows "P scanColumns uid hgs out"
proof -
  let ?Q = "\<lambda>dc' udc' scan uid hgs out.
              dc' = dc \<longrightarrow> udc' = udc \<longrightarrow> (scan = [] \<longrightarrow> out = Inr hgs) \<and> P scan uid hgs out"
  have "?Q dc udc scanColumns uid hgs out"
  proof (rule build_groups.raw_induct [where P = ?Q, OF _ run])
    fix f dc' udc' scan uid hgs out
    assume IH: "\<And>dc' udc' scan uid hgs out. f dc' udc' scan uid hgs = Some out \<Longrightarrow>
                  ?Q dc' udc' scan uid hgs out"
      and body: "(if scan = [] then Some (Inr hgs)
          else case scan_columns dc' udc' (list_ex (\<lambda>d. parent d \<noteq> None) scan) scan ([], uid, []) of
               Inl e \<Rightarrow> Some (Inl e)
             | Inr (parentColumns, uid', hdrs) \<Rightarrow>
                 f dc' udc' parentColumns uid' (hgs @ [\<lparr>group_headers = hdrs\<rparr>])) = Some out"
    show "?Q dc' udc' scan uid hgs out"
    proof (intro impI)
      assume eq: "dc' = dc" "udc' = udc"
      show "(scan = [] \<longrightarrow> out = Inr hgs) \<and> P scan uid hgs out"
      proof (cases "scan = []")
        case True
        with body have "out = Inr hgs" by simp
        with True finished show ?thesis by simp
      next
        case False
        show ?thesis
        proof (cases "scan_columns dc udc (list_ex (\<lambda>d. parent d \<noteq> None) scan) scan ([], uid, [])")
          case (Inl e)
          with body False eq have "out = Inl e" by simp
          with raised [OF False Inl] False show ?thesis by simp
        next
          case (Inr r)
          obtain ps uid' hdrs where r: "r = (ps, uid', hdrs)" by (rule prod_cases3)
          with Inr have sc:
            "scan_columns dc udc (list_ex (\<lambda>d. parent d \<noteq> None) scan) scan ([], uid, [])
               = Inr (ps, uid', hdrs)" by simp
          with body False eq have "f dc udc ps uid' (hgs @ [\<lparr>group_headers = hdrs\<rparr>]) = Some out"
            by simp
          from IH [OF this] have
            "ps = [] \<longrightarrow> out = Inr (hgs @ [\<lparr>group_headers = hdrs\<rparr>])"
            "P ps uid' (hgs @ [\<lparr>group_headers = hdrs\<rparr>]) out" by simp_all
          from step [OF False sc this] False show ?thesis by simp
        qed
      qed
    qed
  qed
  then show ?thesis by simp
qed

lemma build_groups_first:
  assumes "build_groups dc udc scanColumns uid hgs = Some (Inr res)" and "scanColumns \<noteq> []"
  shows "\<exists>rest. res = hgs @ \<lparr>group_headers = scanColumns\<rparr> # rest"
proof -
  let ?P = "\<lambda>scan (uid::nat) hgs (out::error + headerGroup list).
              \<forall>res. out = Inr res \<longrightarrow> scan \<noteq> [] \<longrightarrow>
                (\<exists>rest. res = hgs @ \<lparr>group_headers = scan\<rparr> # rest)"
  have "?P scanColumns uid hgs (Inr res)"
  proof (rule build_groups_rounds [where P = ?P, OF assms(1)])
    fix scan uid hgs ps uid' hdrs and out :: "error + headerGroup list"
    assume ne: "scan \<noteq> []"
      and sc: "scan_columns dc udc (list_ex (\<lambda>d. parent d \<noteq> None) scan) scan ([], uid, [])
                 = Inr (ps, uid', hdrs)"
      and last_round: "ps = [] \<longrightarrow> out = Inr (hgs @ [\<lparr>group_headers = hdrs\<rparr>])"
      and IH: "?P ps uid' (hgs @ [\<lparr>group_headers = hdrs\<rparr>]) out"
    from sc have h: "hdrs = scan" by (rule scan_columns_headers [THEN trans]) simp
    show "?P scan uid hgs out"
    proof (intro allI impI)
      fix res assume out: "out = Inr res"
      show "\<exists>rest. res = hgs @ \<lparr>group_headers = scan\<rparr> # rest"
      proof (cases "ps = []")
        case True
        with last_round out h show ?thesis by simp
      next
        case False
        with IH out obtain rest where
          "res = (hgs @ [\<lparr>group_headers = hdrs\<rparr>]) @ \<lparr>group_headers = ps\<rparr> # rest" by blast
        with h show ?thesis by simp
      qed
    qed
  qed simp_all
  with assms(2) show ?thesis by simp
qed

lemma scan_columns_nonempty:
  assumes "scan_columns dc udc True cols ([], u0, h0) = Inr (ps, u, h)" and "cols \<noteq> []"
  shows "ps \<noteq> []"
proof -
  from scan_columns_runs_start [OF assms(1)] have "map hdrs_of ps = runs parent_key cols" ..
  with assms(2) show ?thesis by (cases cols) auto
qed

lemma build_groups_last:
  assumes "build_groups dc udc scanColumns uid hgs = Some (Inr res)" and "scanColumns \<noteq> []"
  shows "res \<noteq> [] \<and> (\<forall>c\<in>set (group_headers (last res)). parent c = None)"
proof -
  let ?P = "\<lambda>scan (uid::nat) (hgs::headerGroup list) (out::error + headerGroup list).
              \<forall>res. out = Inr res \<longrightarrow> scan \<noteq> [] \<longrightarrow>
                res \<noteq> [] \<and> (\<forall>c\<in>set (group_headers (last res)). parent c = None)"
  have "?P scanColumns uid hgs (Inr res)"
  proof (rule build_groups_rounds [where P = ?P, OF assms(1)])
    fix scan uid hgs ps uid' hdrs and out :: "error + headerGroup list"
    assume ne: "scan \<noteq> []"
      and sc: "scan_columns dc udc (list_ex (\<lambda>d. parent d \<noteq> None) scan) scan ([], uid, [])
                 = Inr (ps, uid', hdrs)"
      and last_round: "ps = [] \<longrightarrow> out = Inr (hgs @ [\<lparr>group_headers = hdrs\<rparr>])"
      and IH: "?P ps uid' (hgs @ [\<lparr>group_headers = hdrs\<rparr>]) out"
    show "?P scan uid hgs out"
    proof (intro allI impI)
      fix res assume out: "out = Inr res"
      show "res \<noteq> [] \<and> (\<forall>c\<in>set (group_headers (last res)). parent c = None)"
      proof (cases "list_ex (\<lambda>d. parent d \<noteq> None) scan")
        case True
        with sc ne have "ps \<noteq> []" by (auto dest: scan_columns_nonempty)
        with IH out show ?thesis by simp
      next
        case False
        with sc have "ps = []" "hdrs = scan"
          by (simp_all add: scan_columns_without_parents)
        with last_round out False show ?thesis by (auto simp: list_ex_iff)
      qed
    qed
  qed simp_all
  with assms(2) show ?thesis by simp
qed

lemma span_headers: "headers p \<noteq> None \<Longrightarrow> span p = sum_list (map span (hdrs_of p))"
  by (cases p) (auto simp: hdrs_of_def)

lemma sum_list_concat_map: "sum_list (map f (concat xss)) = sum_list (map (\<lambda>xs. sum_list (map f xs)) xss)"
  by (induction xss) simp_all

lemma scan_columns_span:
  assumes "scan_columns dc udc True cols ([], u0, h0) = Inr (ps, u, h)"
  shows "sum_list (map span ps) = sum_list (map span cols)"
proof -
  from scan_columns_runs_start [OF assms] have r: "map hdrs_of ps = runs parent_key cols" ..
  from scan_columns_have_headers [OF assms] have hh: "\<forall>p\<in>set ps. headers p \<noteq> None" by simp
  have e1: "map span ps = map (\<lambda>p. sum_list (map span (hdrs_of p))) ps"
    using hh by (intro map_cong refl) (simp add: span_headers)
  have e2: "sum_list (map (\<lambda>p. sum_list (map span (hdrs_of p))) ps)
              = sum_list (map span (concat (map hdrs_of ps)))"
    by (simp add: sum_list_concat_map comp_def)
  have "sum_list (map span ps) = sum_list (map (\<lambda>p. sum_list (map span (hdrs_of p))) ps)"
    by (subst e1) (rule refl)
  also note e2
  also have "concat (map hdrs_of ps) = cols" by (simp only: r concat_runs)
  finally show ?thesis .
qed

lemma build_groups_span:
  assumes "build_groups dc udc scanColumns uid hgs = Some (Inr res)"
    and "\<forall>g\<in>set hgs. group_span g = N"
    and "sum_list (map span scanColumns) = N"
  shows "\<forall>g\<in>set res. group_span g = N"
proof -
  let ?P = "\<lambda>scan (uid::nat) hgs (out::error + headerGroup list).
              \<forall>res. out = Inr res \<longrightarrow> (\<forall>g\<in>set hgs. group_span g = N) \<longrightarrow>
                sum_list (map span scan) = N \<longrightarrow> (\<forall>g\<in>set res. group_span g = N)"
  have "?P scanColumns uid hgs (Inr res)"
  proof (rule build_groups_rounds [where P = ?P, OF assms(1)])
    fix scan uid hgs ps uid' hdrs and out :: "error + headerGroup list"
    assume ne: "scan \<noteq> []"
      and sc: "scan_columns dc udc (list_ex (\<lambda>d. parent d \<noteq> None) scan) scan ([], uid, [])
                 = Inr (ps, uid', hdrs)"
      and last_round: "ps = [] \<longrightarrow> out = Inr (hgs @ [\<lparr>group_headers = hdrs\<rparr>])"
      and IH: "?P ps uid' (hgs @ [\<lparr>group_headers = hdrs\<rparr>]) out"
    from sc have h: "hdrs = scan" by (rule scan_columns_headers [THEN trans]) simp
    show "?P scan uid hgs out"
    proof (intro allI impI)
      fix res assume out: "out = Inr res" and gs: "\<forall>g\<in>set hgs. group_span g = N"
        and sum: "sum_list (map span scan) = N"
      have groups: "\<forall>g\<in>set (hgs @ [\<lparr>group_headers = hdrs\<rparr>]). group_span g = N"
        using gs sum h by (simp add: group_span_def)
      show "\<forall>g\<in>set res. group_span g = N"
      proof (cases "list_ex (\<lambda>d. parent d \<noteq> None) scan")
        case True
        with sc have "sum_list (map span ps) = N"
          using scan_columns_span sum by fastforce
        with IH out groups show ?thesis by blast
      next
        case False
        with sc have "ps = []" by (simp add: scan_columns_without_parents)
        with last_round out groups show ?thesis by simp
      qed
    qed
  qed simp_all
  with assms(2,3) show ?thesis by simp
qed

lemma span_leaf: "headers c = None \<Longrightarrow> span c = 1"
  by (cases c) simp

lemma span_leaves: "\<forall>c\<in>set cs. headers c = None \<Longrightarrow> sum_list (map span cs) = length cs"
  by (induction cs) (simp_all add: span_leaf)

text \<open>
  The \<open>parent\<close> entry of a template reaches the placeholder of a column without
  parent.
\<close>

lemma placeholder_parent:
  "parent c = None \<Longrightarrow> newParent_of dc (Some t) uid c = Inr np \<Longrightarrow> parent np = merged_parent dc t"
  by (auto simp: newParent_of_def)

text \<open>
  Claim C3. For every list of leaf columns, whatever the parents above them (any finite
  nesting, different depths), every header group that \<open>makeHeaderGroups\<close> returns has
  headers whose spans (the number of leaf columns each covers, a placeholder covering
  what it stands above) sum to the number of leaf columns; and with a default column
  that carries no \<open>parent\<close> entry, \<open>makeHeaderGroups\<close> does return the groups.
\<close>

theorem header_groups_rectangular:
  assumes "\<forall>c\<in>set allColumns. headers c = None"
  shows "(merged_parent dc t = None \<longrightarrow>
            (\<exists>gs. makeHeaderGroups dc allColumns (Some t) = Some (Inr gs)))
         \<and> (\<forall>gs. makeHeaderGroups dc allColumns defaultColumn = Some (Inr gs) \<longrightarrow>
               (\<forall>g\<in>set gs. sum_list (map span (group_headers g)) = length allColumns))"
proof (intro conjI allI impI)
  assume "merged_parent dc t = None"
  from build_groups_returns [OF this, of allColumns 0 "[]"]
  show "\<exists>gs. makeHeaderGroups dc allColumns (Some t) = Some (Inr gs)"
    by (auto simp: makeHeaderGroups_def)
next
  fix gs assume "makeHeaderGroups dc allColumns defaultColumn = Some (Inr gs)"
  then obtain res where res: "build_groups dc defaultColumn allColumns 0 [] = Some (Inr res)"
      "gs = rev res"
    by (auto simp: makeHeaderGroups_def split: option.splits sum.splits)
  from assms have "sum_list (map span allColumns) = length allColumns"
    by (rule span_leaves)
  from build_groups_span [OF res(1) _ this] res(2)
  show "\<forall>g\<in>set gs. sum_list (map span (group_headers g)) = length allColumns"
    by (simp add: group_span_def)
qed

lemma string_of_nat_digits:
  "string_of_nat 0 = ''0''" "string_of_nat 1 = ''1''" "string_of_nat 2 = ''2''"
  "string_of_nat 3 = ''3''" "string_of_nat 4 = ''4''" "string_of_nat 5 = ''5''"
  "string_of_nat 6 = ''6''"
  "string_of_nat (Suc 0) = ''1''" "string_of_nat (Suc (Suc 0)) = ''2''"
  "string_of_nat (Suc (Suc (Suc 0))) = ''3''"
  "string_of_nat (Suc (Suc (Suc (Suc 0)))) = ''4''"
  "string_of_nat (Suc (Suc (Suc (Suc (Suc 0))))) = ''5''"
  "string_of_nat (Suc (Suc (Suc (Suc (Suc (Suc 0)))))) = ''6''"
  by (simp_all add: string_of_nat.simps digit_char_def)

lemmas makeHeaderGroups_eval =
  makeHeaderGroups_def build_groups.simps newParent_of_def push_header_def
  string_of_nat_digits example_columns_def plain_template_def merged_parent_def

theorem header_groups_rectangular_witness:
  "merged_parent plain_template plain_template = None
   \<and> map (\<lambda>g. sum_list (map span (group_headers g)))
       (case makeHeaderGroups plain_template example_columns (Some plain_template) of
          Some (Inr gs) \<Rightarrow> gs | _ \<Rightarrow> [])
     = [4, 4, 4]"
  using header_groups_rectangular [of example_columns plain_template plain_template
          "Some plain_template"]
  by (simp add: makeHeaderGroups_eval)


lemma runs_homogeneous:
  "r \<in> set (runs key xs) \<Longrightarrow> r \<noteq> [] \<and> (\<forall>x\<in>set r. key x = key (hd r))"
proof (induction key xs rule: runs.induct)
  case (1 key)
  then show ?case by simp
next
  case (2 key x xs)
  from "2.prems" consider "r = x # takeWhile (\<lambda>y. key y = key x) xs"
    | "r \<in> set (runs key (dropWhile (\<lambda>y. key y = key x) xs))" by auto
  then show ?case
  proof cases
    case 1
    show ?thesis
    proof (intro conjI ballI)
      show "r \<noteq> []" using 1 by simp
    next
      fix z assume "z \<in> set r"
      with 1 have "z = x \<or> z \<in> set (takeWhile (\<lambda>y. key y = key x) xs)" by simp
      then have "key z = key x" using set_takeWhileD by fastforce
      moreover have "hd r = x" using 1 by simp
      ultimately show "key z = key (hd r)" by simp
    qed
  next
    case 2
    then show ?thesis by (rule "2.IH")
  qed
qed

lemma runs_adjacent_differ:
  "Suc i < length (runs key xs) \<Longrightarrow> key (hd (runs key xs ! i)) \<noteq> key (hd (runs key xs ! Suc i))"
proof (induction key xs arbitrary: i rule: runs.induct)
  case (1 key)
  then show ?case by simp
next
  case (2 key x xs)
  let ?d = "dropWhile (\<lambda>y. key y = key x) xs"
  show ?case
  proof (cases i)
    case 0
    with "2.prems" have ne: "?d \<noteq> []" by (cases ?d) auto
    then have k: "key (hd ?d) \<noteq> key x" using hd_dropWhile [of "\<lambda>y. key y = key x" xs] by simp
    from ne obtain y ys where d: "?d = y # ys" by (cases ?d) auto
    then have "hd (runs key ?d ! 0) = hd ?d" by simp
    with k 0 show ?thesis by simp
  next
    case (Suc j)
    with "2.prems" have "Suc j < length (runs key ?d)" by simp
    from "2.IH" [OF this] Suc show ?thesis by simp
  qed
qed

text \<open>
  Claim C7, as amended. \<open>makeHeaderGroups\<close> builds the header groups from the leaf
  columns upward and reverses the sequence itself before returning it: for every
  non-empty list of leaf columns the returned sequence is in top-down order, its first
  group the outermost one (no header of it has a parent) and its last group the one
  that consists of exactly the input leaf columns; and with a default column that
  carries no \<open>parent\<close> entry, \<open>makeHeaderGroups\<close> does return the sequence.
\<close>

theorem header_groups_leaf_group_last:
  assumes "allColumns \<noteq> []"
  shows "(merged_parent dc t = None \<longrightarrow>
            (\<exists>gs. makeHeaderGroups dc allColumns (Some t) = Some (Inr gs)))
         \<and> (\<forall>gs. makeHeaderGroups dc allColumns defaultColumn = Some (Inr gs) \<longrightarrow>
               gs \<noteq> [] \<and> last gs = \<lparr>group_headers = allColumns\<rparr>
               \<and> (\<forall>c\<in>set (group_headers (hd gs)). parent c = None))"
proof (intro conjI allI impI)
  assume "merged_parent dc t = None"
  from build_groups_returns [OF this, of allColumns 0 "[]"]
  show "\<exists>gs. makeHeaderGroups dc allColumns (Some t) = Some (Inr gs)"
    by (auto simp: makeHeaderGroups_def)
next
  fix gs assume "makeHeaderGroups dc allColumns defaultColumn = Some (Inr gs)"
  then obtain res where res: "build_groups dc defaultColumn allColumns 0 [] = Some (Inr res)"
      "gs = rev res"
    by (auto simp: makeHeaderGroups_def split: option.splits sum.splits)
  from build_groups_first [OF res(1) assms] obtain rest where
    rest: "res = \<lparr>group_headers = allColumns\<rparr> # rest" by auto
  from build_groups_last [OF res(1) assms] have
    l: "res \<noteq> []" "\<forall>c\<in>set (group_headers (last res)). parent c = None" by simp_all
  from res(2) rest show "gs \<noteq> []" by simp
  from res(2) rest show "last gs = \<lparr>group_headers = allColumns\<rparr>" by simp
  from res(2) l show "\<forall>c\<in>set (group_headers (hd gs)). parent c = None"
    by (simp add: hd_rev)
qed

theorem header_groups_leaf_group_last_witness:
  "merged_parent plain_template plain_template = None
   \<and> last (case makeHeaderGroups plain_template example_columns (Some plain_template) of
             Some (Inr gs) \<Rightarrow> gs | _ \<Rightarrow> [])
     = \<lparr>group_headers = example_columns\<rparr>
   \<and> map parent
       (group_headers
          (hd (case makeHeaderGroups plain_template example_columns (Some plain_template) of
                 Some (Inr gs) \<Rightarrow> gs | _ \<Rightarrow> [])))
     = [None, None, None]"
  using header_groups_leaf_group_last [of example_columns plain_template plain_template
          "Some plain_template"]
  by (simp add: makeHeaderGroups_eval)

text \<open>
  The claim as stated fails: the returned sequence of the example has the outermost
  group first, not last; its last group is the leaf group, whose first column has a
  parent.
\<close>

theorem header_groups_order_counterexample:
  "map (\<lambda>g. map col_id (group_headers g))
     (case makeHeaderGroups plain_template example_columns (Some plain_template) of
        Some (Inr gs) \<Rightarrow> gs | _ \<Rightarrow> [])
     = [[''h_4'', ''c_placeholder_2_placeholder_5'', ''k_3_placeholder_6''],
        [''g_0'', ''c_placeholder_2'', ''k_3''],
        [''a'', ''b'', ''c'', ''d'']]
   \<and> map (\<lambda>c. map_option col_id (parent c))
       (group_headers
          (last (case makeHeaderGroups plain_template example_columns (Some plain_template) of
                   Some (Inr gs) \<Rightarrow> gs | _ \<Rightarrow> [])))
     = [Some ''g'', Some ''g'', None, Some ''k'']"
  by (simp add: makeHeaderGroups_eval)

text \<open>
  Claim C8. When some leaf column has a parent, the header group next above the leaf
  group has exactly one header cell for every maximal run of adjacent columns that
  share the same parent key (their parent's id, or \<^verbatim>\<open><id>_placeholder\<close> for a
  column without a parent): the cell's \<open>headers\<close> are the columns of the run, in
  order, and its \<open>originalId\<close> is the run's key. So adjacent columns under one parent
  get one cell, not one each, and columns that are not adjacent or whose parents differ
  get cells of their own.
\<close>

theorem parents_merged:
  assumes "list_ex (\<lambda>d. parent d \<noteq> None) allColumns"
    and "makeHeaderGroups dc allColumns defaultColumn = Some (Inr gs)"
  shows "\<exists>rest ps. gs = rest @ [\<lparr>group_headers = ps\<rparr>, \<lparr>group_headers = allColumns\<rparr>]
           \<and> map headers ps = map Some (runs parent_key allColumns)
           \<and> map originalId ps = map (\<lambda>r. Some (parent_key (hd r))) (runs parent_key allColumns)"
proof -
  let ?hp = "list_ex (\<lambda>d. parent d \<noteq> None) allColumns"
  from assms(1) have ne: "allColumns \<noteq> []" by auto
  from assms(2) obtain res where res: "build_groups dc defaultColumn allColumns 0 [] = Some (Inr res)"
      "gs = rev res"
    by (auto simp: makeHeaderGroups_def split: option.splits sum.splits)
  show ?thesis
  proof (cases "scan_columns dc defaultColumn ?hp allColumns ([], 0, [])")
    case (Inl e)
    with res(1) build_groups_error [OF ne Inl] show ?thesis by simp
  next
    case (Inr r)
    obtain ps uid' hdrs where r: "r = (ps, uid', hdrs)" by (rule prod_cases3)
    from Inr r assms(1) have run:
      "scan_columns dc defaultColumn True allColumns ([], 0, []) = Inr (ps, uid', hdrs)" by simp
    from run have h: "hdrs = allColumns" using scan_columns_headers by fastforce
    from run ne have pne: "ps \<noteq> []" by (rule scan_columns_nonempty)
    from Inr r have run': "scan_columns dc defaultColumn ?hp allColumns ([], 0, []) = Inr (ps, uid', hdrs)"
      by simp
    from build_groups_step [OF ne run'] res(1) h
    have next_eq: "build_groups dc defaultColumn ps uid' ([] @ [\<lparr>group_headers = allColumns\<rparr>])
                     = Some (Inr res)"
      by simp
    from build_groups_first [OF next_eq pne] obtain rest where
      rest: "res = [\<lparr>group_headers = allColumns\<rparr>] @ \<lparr>group_headers = ps\<rparr> # rest" by auto
    from scan_columns_runs_start [OF run] have
      hs: "map hdrs_of ps = runs parent_key allColumns" and
      os: "map originalId ps = map (\<lambda>r. Some (parent_key (hd r))) (runs parent_key allColumns)"
      by simp_all
    from scan_columns_have_headers [OF run] have "\<forall>p\<in>set ps. headers p \<noteq> None" by simp
    then have "map headers ps = map Some (map hdrs_of ps)"
      by (auto simp: hdrs_of_def)
    with hs have "map headers ps = map Some (runs parent_key allColumns)" by simp
    with os res(2) rest show ?thesis by simp
  qed
qed

theorem parents_merged_witness:
  "\<exists>gs rest ps.
      makeHeaderGroups plain_template example_columns (Some plain_template) = Some (Inr gs)
      \<and> gs = rest @ [\<lparr>group_headers = ps\<rparr>, \<lparr>group_headers = example_columns\<rparr>]
      \<and> map headers ps = map Some (runs parent_key example_columns)
      \<and> map originalId ps = [Some ''g'', Some ''c_placeholder'', Some ''k'']
      \<and> map length (runs parent_key example_columns) = [2, 1, 1]"
proof -
  have h1: "list_ex (\<lambda>d. parent d \<noteq> None) example_columns"
    by (simp add: example_columns_def)
  obtain gs where h2: "makeHeaderGroups plain_template example_columns (Some plain_template)
                         = Some (Inr gs)"
    by (simp add: makeHeaderGroups_eval)
  have r: "map (\<lambda>r. Some (parent_key (hd r))) (runs parent_key example_columns)
             = [Some ''g'', Some ''c_placeholder'', Some ''k'']"
       "map length (runs parent_key example_columns) = [2, 1, 1]"
    by (simp_all add: example_columns_def parent_key_def)
  from parents_merged [OF h1 h2] r h2 show ?thesis by auto
qed


section \<open>Properties of assignColumnAccessor and linkColumnStructure\<close>

lemma extends_iff: "extends h h' \<longleftrightarrow> (\<exists>xs. h' = h @ xs)"
proof
  assume e: "extends h h'"
  have "h' = take (length h) h' @ drop (length h) h'" by simp
  with e have "h' = h @ drop (length h) h'" by (simp add: extends_def)
  then show "\<exists>xs. h' = h @ xs" ..
next
  assume "\<exists>xs. h' = h @ xs"
  then show "extends h h'" by (auto simp: extends_def)
qed

lemma extends_refl: "extends h h"
  by (simp add: extends_def)

lemma extends_trans: "extends h h' \<Longrightarrow> extends h' h'' \<Longrightarrow> extends h h''"
  by (auto simp: extends_iff)

lemma extends_append: "extends h (h @ xs)"
  by (simp add: extends_def)

lemma extends_update: "extends h h' \<Longrightarrow> length h \<le> a \<Longrightarrow> extends h (h'[a := x])"
  by (auto simp: extends_iff list_update_append)

lemma extends_nth: "extends h h' \<Longrightarrow> a < length h \<Longrightarrow> h' ! a = h ! a"
  by (auto simp: extends_iff nth_append)

lemma extends_length: "extends h h' \<Longrightarrow> length h \<le> length h'"
  by (simp add: extends_def)

lemma get_set_prop: "get_prop (set_prop ps k v) k' = (if k' = k then v else get_prop ps k')"
  by (induction ps) (auto simp: get_prop_def)

lemma extends_write_field: "extends h h' \<Longrightarrow> length h \<le> a \<Longrightarrow> extends h (write_field h' a k v)"
  by (cases "h' ! a") (simp_all add: write_field_def extends_update)

lemma length_write_field: "length (write_field h a k v) = length h"
  by (cases "h ! a") (simp_all add: write_field_def)

lemma spread_extends:
  assumes "extends h h'" and "valid_in h v"
  shows "spread h' v = spread h v"
proof (cases v)
  case (HRef a)
  with assms(2) have a: "a < length h" by (simp add: valid_in_def)
  with assms(1) have "h' ! a = h ! a" "a < length h'"
    using extends_nth extends_length by fastforce+
  with HRef a show ?thesis by (simp add: spread_def)
qed (simp_all add: spread_def)


lemma assign_props_result:
  assumes "assign_props ps = Inr ps'"
  shows "get_prop ps' ''id'' = resolve_id ps"
    and "get_prop ps' ''accessor'' = resolve_accessor ps"
    and "k \<noteq> ''id'' \<Longrightarrow> k \<noteq> ''accessor'' \<Longrightarrow> get_prop ps' k = get_prop ps k"
    and "htruthy (resolve_id ps)"
  using assms by (auto simp: assign_props_def Let_def get_set_prop split: if_splits)

lemma resolve_copy_props:
  "resolve_id (copy_props h v p d) = resolve_id (spread h v)"
  "resolve_accessor (copy_props h v p d) = resolve_accessor (spread h v)"
  by (simp_all add: resolve_id_def resolve_accessor_def copy_props_def get_set_prop)

lemma assignColumnAccessor_fresh:
  "assignColumnAccessor (h @ [HObject ps]) (length h) =
     (case assign_props ps of
        Inl e \<Rightarrow> Throws e (h @ [HObject ps])
      | Inr ps' \<Rightarrow> Returns (h @ [HObject ps']) (HRef (length h)))"
  by (cases "assign_props ps") (simp_all add: assignColumnAccessor_def)

lemma link_column_throws:
  "assign_props (copy_props h v p d) = Inl e \<Longrightarrow>
   link_column f h v p d = Some (Throws e (h @ [HObject (copy_props h v p d)]))"
  by (simp add: link_column_def assignColumnAccessor_fresh)

lemma link_column_leaf:
  "assign_props (copy_props h v p d) = Inr ps' \<Longrightarrow> \<not> htruthy (get_prop ps' ''columns'') \<Longrightarrow>
   link_column f h v p d = Some (Returns (h @ [HObject ps']) (HRef (length h)))"
  by (simp add: link_column_def assignColumnAccessor_fresh read_field_def)

lemma link_column_group:
  "assign_props (copy_props h v p d) = Inr ps' \<Longrightarrow> htruthy (get_prop ps' ''columns'') \<Longrightarrow>
   link_column f h v p d =
     and_then (f (h @ [HObject ps']) (get_prop ps' ''columns'') (HRef (length h)) (d + 1))
       (\<lambda>h3 cols. Some (Returns (write_field h3 (length h) ''columns'' cols) (HRef (length h))))"
  by (simp add: link_column_def assignColumnAccessor_fresh read_field_def)

lemma linker_okD:
  assumes "linker_ok f" and "f h c p d = Some out"
  shows "extends h (heap_of out)"
    and "out = Returns hf r \<Longrightarrow> \<exists>arr. r = HRef arr \<and> length h \<le> arr \<and> arr < length hf"
  using assms unfolding linker_ok_def by blast+

lemma copy_ofI:
  assumes "length h \<le> b" and "b < length hf" and "hf ! b = HObject ps"
    and "get_prop ps ''parent'' = p" and "get_prop ps ''depth'' = HNum d"
    and "get_prop ps ''id'' = resolve_id (spread h v)"
    and "htruthy (resolve_id (spread h v))"
    and "get_prop ps ''accessor'' = resolve_accessor (spread h v)"
    and "\<And>k. k \<notin> {''id'', ''accessor'', ''columns'', ''parent'', ''depth''} \<Longrightarrow>
           get_prop ps k = get_prop (spread h v) k"
    and "htruthy (get_prop (spread h v) ''columns'') \<Longrightarrow>
           \<exists>arr. get_prop ps ''columns'' = HRef arr \<and> length h \<le> arr \<and> arr < length hf"
    and "\<not> htruthy (get_prop (spread h v) ''columns'') \<Longrightarrow>
           get_prop ps ''columns'' = get_prop (spread h v) ''columns''"
  shows "copy_of h hf v b p d"
  unfolding copy_of_def
  by (rule exI [of _ ps]) (use assms in \<open>simp only: simp_thms if_split\<close>, blast)

lemma link_column_ok:
  assumes f: "linker_ok f" and run: "link_column f h v p d = Some out"
  shows "extends h (heap_of out)"
    and "out = Returns hf r \<Longrightarrow> r = HRef (length h) \<and> copy_of h hf v (length h) p d"
proof -
  let ?ps0 = "copy_props h v p d"
  show "extends h (heap_of out)"
  proof (cases "assign_props ?ps0")
    case (Inl e)
    with run link_column_throws [OF Inl, of f] show ?thesis by (auto simp: extends_append)
  next
    case (Inr ps')
    show ?thesis
    proof (cases "htruthy (get_prop ps' ''columns'')")
      case False
      with run link_column_leaf [OF Inr False, of f] show ?thesis by (auto simp: extends_append)
    next
      case True
      let ?h2 = "h @ [HObject ps']"
      note g = link_column_group [OF Inr True, of f]
      from run g obtain o3 where
        o3: "f ?h2 (get_prop ps' ''columns'') (HRef (length h)) (d + 1) = Some o3"
        by (cases "f ?h2 (get_prop ps' ''columns'') (HRef (length h)) (d + 1)") auto
      from linker_okD(1) [OF f o3] have e3: "extends ?h2 (heap_of o3)" .
      have e2: "extends h ?h2" by (rule extends_append)
      from e2 e3 have e: "extends h (heap_of o3)" by (rule extends_trans)
      show ?thesis
      proof (cases o3)
        case (Throws e' h3)
        with run g o3 e show ?thesis by auto
      next
        case (Returns h3 cols)
        with run g o3 have "out = Returns (write_field h3 (length h) ''columns'' cols) (HRef (length h))"
          by auto
        with e Returns show ?thesis by (simp add: extends_write_field)
      qed
    qed
  qed
  assume out: "out = Returns hf r"
  then obtain ps' where Inr: "assign_props ?ps0 = Inr ps'"
    using run by (cases "assign_props ?ps0") (auto simp: link_column_throws)
  note a = assign_props_result [OF Inr]
  have base: "get_prop ps' ''parent'' = p" "get_prop ps' ''depth'' = HNum d"
    "get_prop ps' ''columns'' = get_prop (spread h v) ''columns''"
    using a(3) by (simp_all add: copy_props_def get_set_prop)
  have other: "get_prop ps' k = get_prop (spread h v) k"
    if "k \<notin> {''id'', ''accessor'', ''columns'', ''parent'', ''depth''}" for k
  proof -
    from that have "k \<noteq> ''id''" "k \<noteq> ''accessor''" "k \<noteq> ''parent''" "k \<noteq> ''depth''" by auto
    with a(3) [of k] show ?thesis by (simp add: copy_props_def get_set_prop)
  qed
  have ids: "get_prop ps' ''id'' = resolve_id (spread h v)"
    "get_prop ps' ''accessor'' = resolve_accessor (spread h v)"
    "htruthy (resolve_id (spread h v))"
    using a(1,2,4) by (simp_all add: resolve_copy_props)
  show "r = HRef (length h) \<and> copy_of h hf v (length h) p d"
  proof (cases "htruthy (get_prop ps' ''columns'')")
    case False
    with run out link_column_leaf [OF Inr, of f] have hf: "hf = h @ [HObject ps']" and r: "r = HRef (length h)"
      by auto
    have "copy_of h hf v (length h) p d"
    proof (rule copy_ofI [where ps = ps'])
      show "hf ! length h = HObject ps'" using hf by simp
      show "length h < length hf" using hf by simp
      fix k assume "k \<notin> {''id'', ''accessor'', ''columns'', ''parent'', ''depth''}"
      then show "get_prop ps' k = get_prop (spread h v) k" by (rule other)
    next
      assume "htruthy (get_prop (spread h v) ''columns'')"
      with False base(3) show "\<exists>arr. get_prop ps' ''columns'' = HRef arr \<and> length h \<le> arr \<and> arr < length hf"
        by simp
    qed (use base ids in simp_all)
    with r show ?thesis by simp
  next
    case True
    let ?h2 = "h @ [HObject ps']"
    from run out link_column_group [OF Inr True, of f] have *:
      "and_then (f ?h2 (get_prop ps' ''columns'') (HRef (length h)) (d + 1))
         (\<lambda>h3 cols. Some (Returns (write_field h3 (length h) ''columns'' cols) (HRef (length h))))
       = Some (Returns hf r)"
      by simp
    obtain h3 cols where
      o3: "f ?h2 (get_prop ps' ''columns'') (HRef (length h)) (d + 1) = Some (Returns h3 cols)"
      and hf: "hf = write_field h3 (length h) ''columns'' cols" and r: "r = HRef (length h)"
    proof (cases "f ?h2 (get_prop ps' ''columns'') (HRef (length h)) (d + 1)")
      case None
      with * show ?thesis by simp
    next
      case (Some o3)
      show ?thesis
      proof (cases o3)
        case (Throws e' h')
        with Some * show ?thesis by simp
      next
        case (Returns h3 cols)
        with Some * have "hf = write_field h3 (length h) ''columns'' cols" "r = HRef (length h)"
          by simp_all
        with Some Returns show ?thesis by (intro that) simp_all
      qed
    qed
    from linker_okD [OF f o3] have e3: "extends ?h2 h3" and
      arr: "\<exists>arr. cols = HRef arr \<and> length ?h2 \<le> arr \<and> arr < length h3"
      by simp_all
    from e3 have l3: "length h < length h3" using extends_length by fastforce
    from e3 have at: "h3 ! length h = HObject ps'" using extends_nth [OF e3, of "length h"] by simp
    from l3 at hf have hfat: "hf ! length h = HObject (set_prop ps' ''columns'' cols)"
      and hfl: "length hf = length h3"
      by (simp_all add: write_field_def)
    have "copy_of h hf v (length h) p d"
    proof (rule copy_ofI [where ps = "set_prop ps' ''columns'' cols"])
      show "hf ! length h = HObject (set_prop ps' ''columns'' cols)" by (rule hfat)
      show "length h < length hf" using hfl l3 by simp
      show "get_prop (set_prop ps' ''columns'' cols) ''parent'' = p"
        using base by (simp add: get_set_prop)
      show "get_prop (set_prop ps' ''columns'' cols) ''depth'' = HNum d"
        using base by (simp add: get_set_prop)
      show "get_prop (set_prop ps' ''columns'' cols) ''id'' = resolve_id (spread h v)"
        using ids by (simp add: get_set_prop)
      show "get_prop (set_prop ps' ''columns'' cols) ''accessor'' = resolve_accessor (spread h v)"
        using ids by (simp add: get_set_prop)
      fix k assume k: "k \<notin> {''id'', ''accessor'', ''columns'', ''parent'', ''depth''}"
      then have "k \<noteq> ''columns''" by auto
      with other [OF k] show "get_prop (set_prop ps' ''columns'' cols) k = get_prop (spread h v) k"
        by (simp add: get_set_prop)
    next
      from arr hfl
      show "\<exists>arr. get_prop (set_prop ps' ''columns'' cols) ''columns'' = HRef arr
              \<and> length h \<le> arr \<and> arr < length hf"
        by (auto simp: get_set_prop)
    next
      assume "\<not> htruthy (get_prop (spread h v) ''columns'')"
      with True base(3)
      show "get_prop (set_prop ps' ''columns'' cols) ''columns'' = get_prop (spread h v) ''columns''"
        by simp
    qed (use ids in simp_all)
    with r show ?thesis by simp
  qed
qed


lemma copy_of_extends:
  assumes "copy_of h hf v b p d" and "extends hf hf'"
  shows "copy_of h hf' v b p d"
proof -
  from assms(1) obtain ps where ps:
    "length h \<le> b" "b < length hf" "hf ! b = HObject ps"
    "get_prop ps ''parent'' = p" "get_prop ps ''depth'' = HNum d"
    "get_prop ps ''id'' = resolve_id (spread h v)"
    "htruthy (resolve_id (spread h v))"
    "get_prop ps ''accessor'' = resolve_accessor (spread h v)"
    "\<forall>k. k \<notin> {''id'', ''accessor'', ''columns'', ''parent'', ''depth''} \<longrightarrow>
        get_prop ps k = get_prop (spread h v) k"
    "if htruthy (get_prop (spread h v) ''columns'')
     then (\<exists>arr. get_prop ps ''columns'' = HRef arr \<and> length h \<le> arr \<and> arr < length hf)
     else get_prop ps ''columns'' = get_prop (spread h v) ''columns''"
    unfolding copy_of_def by blast
  from assms(2) have le: "length hf \<le> length hf'" by (rule extends_length)
  show ?thesis
  proof (rule copy_ofI [where ps = ps])
    show "hf' ! b = HObject ps" using extends_nth [OF assms(2) ps(2)] ps(3) by simp
    show "b < length hf'" using ps(2) le by simp
    fix k assume "k \<notin> {''id'', ''accessor'', ''columns'', ''parent'', ''depth''}"
    with ps(9) show "get_prop ps k = get_prop (spread h v) k" by blast
  next
    assume "htruthy (get_prop (spread h v) ''columns'')"
    with ps(10) obtain arr where "get_prop ps ''columns'' = HRef arr" "length h \<le> arr" "arr < length hf"
      by auto
    with le show "\<exists>arr. get_prop ps ''columns'' = HRef arr \<and> length h \<le> arr \<and> arr < length hf'"
      by auto
  next
    assume "\<not> htruthy (get_prop (spread h v) ''columns'')"
    with ps(10) show "get_prop ps ''columns'' = get_prop (spread h v) ''columns''" by simp
  qed (use ps in simp_all)
qed

lemma copy_of_weaken:
  assumes "extends h h'" and "valid_in h v" and "copy_of h' hf v b p d"
  shows "copy_of h hf v b p d"
proof -
  from assms(1,2) have sp: "spread h' v = spread h v" by (rule spread_extends)
  from assms(1) have le: "length h \<le> length h'" by (rule extends_length)
  from assms(3) obtain ps where ps:
    "length h' \<le> b" "b < length hf" "hf ! b = HObject ps"
    "get_prop ps ''parent'' = p" "get_prop ps ''depth'' = HNum d"
    "get_prop ps ''id'' = resolve_id (spread h v)"
    "htruthy (resolve_id (spread h v))"
    "get_prop ps ''accessor'' = resolve_accessor (spread h v)"
    "\<forall>k. k \<notin> {''id'', ''accessor'', ''columns'', ''parent'', ''depth''} \<longrightarrow>
        get_prop ps k = get_prop (spread h v) k"
    "if htruthy (get_prop (spread h v) ''columns'')
     then (\<exists>arr. get_prop ps ''columns'' = HRef arr \<and> length h' \<le> arr \<and> arr < length hf)
     else get_prop ps ''columns'' = get_prop (spread h v) ''columns''"
    unfolding copy_of_def sp by blast
  show ?thesis
  proof (rule copy_ofI [where ps = ps])
    show "length h \<le> b" using ps(1) le by simp
    fix k assume "k \<notin> {''id'', ''accessor'', ''columns'', ''parent'', ''depth''}"
    with ps(9) show "get_prop ps k = get_prop (spread h v) k" by blast
  next
    assume "htruthy (get_prop (spread h v) ''columns'')"
    with ps(10) obtain arr where "get_prop ps ''columns'' = HRef arr" "length h' \<le> arr" "arr < length hf"
      by auto
    with le show "\<exists>arr. get_prop ps ''columns'' = HRef arr \<and> length h \<le> arr \<and> arr < length hf"
      by auto
  next
    assume "\<not> htruthy (get_prop (spread h v) ''columns'')"
    with ps(10) show "get_prop ps ''columns'' = get_prop (spread h v) ''columns''" by simp
  qed (use ps in simp_all)
qed

lemma and_then_Some:
  assumes "and_then x f = Some out"
  shows "(\<exists>e h. x = Some (Throws e h) \<and> out = Throws e h)
         \<or> (\<exists>h y. x = Some (Returns h y) \<and> f h y = Some out)"
proof (cases x)
  case None
  with assms show ?thesis by simp
next
  case (Some y)
  with assms show ?thesis by (cases y) simp_all
qed

lemma link_columns_ok:
  assumes f: "linker_ok f" and run: "link_columns f h vs p d = Some out"
  shows "extends h (heap_of out)
         \<and> (\<forall>hf cs. out = Returns hf cs \<longrightarrow>
               length cs = length vs
               \<and> (\<forall>i<length vs. valid_in h (vs ! i) \<longrightarrow>
                     (\<exists>b. cs ! i = HRef b \<and> copy_of h hf (vs ! i) b p d)))"
  using run
proof (induction vs arbitrary: h out)
  case Nil
  then show ?case by (auto simp: extends_refl)
next
  case (Cons v vs)
  from Cons.prems have *:
    "and_then (link_column f h v p d)
       (\<lambda>h' c. and_then (link_columns f h' vs p d) (\<lambda>h'' cs. Some (Returns h'' (c # cs))))
     = Some out" by simp
  from and_then_Some [OF *] show ?case
  proof (elim disjE exE conjE)
    fix e h1 assume t: "link_column f h v p d = Some (Throws e h1)" "out = Throws e h1"
    from link_column_ok(1) [OF f t(1)] t(2) show ?thesis by simp
  next
    fix h1 c assume c: "link_column f h v p d = Some (Returns h1 c)"
      and rest: "and_then (link_columns f h1 vs p d) (\<lambda>h'' cs. Some (Returns h'' (c # cs))) = Some out"
    from link_column_ok [OF f c] have e1: "extends h h1"
      and c1: "c = HRef (length h)" "copy_of h h1 v (length h) p d" by simp_all
    from and_then_Some [OF rest] show ?thesis
    proof (elim disjE exE conjE)
      fix e h2 assume t: "link_columns f h1 vs p d = Some (Throws e h2)" "out = Throws e h2"
      from Cons.IH [OF t(1)] have "extends h1 h2" by simp
      with e1 t(2) show ?thesis by (auto intro: extends_trans)
    next
      fix h2 cs assume r: "link_columns f h1 vs p d = Some (Returns h2 cs)"
        and o: "Some (Returns h2 (c # cs)) = Some out"
      from Cons.IH [OF r] have e2: "extends h1 h2" and len: "length cs = length vs"
        and el: "\<forall>i<length vs. valid_in h1 (vs ! i) \<longrightarrow>
                   (\<exists>b. cs ! i = HRef b \<and> copy_of h1 h2 (vs ! i) b p d)"
        by simp_all
      from e1 e2 have e: "extends h h2" by (rule extends_trans)
      have "\<exists>b. (c # cs) ! i = HRef b \<and> copy_of h h2 ((v # vs) ! i) b p d"
        if i: "i < length (v # vs)" and val: "valid_in h ((v # vs) ! i)" for i
      proof (cases i)
        case 0
        with c1 copy_of_extends [OF c1(2) e2] show ?thesis by simp
      next
        case (Suc j)
        with i val have j: "j < length vs" "valid_in h (vs ! j)" by simp_all
        from j(2) e1 have "valid_in h1 (vs ! j)"
          using extends_length [OF e1] by (cases "vs ! j") (auto simp: valid_in_def)
        with el j(1) obtain b where b: "cs ! j = HRef b" "copy_of h1 h2 (vs ! j) b p d" by blast
        from copy_of_weaken [OF e1 j(2) b(2)] b(1) Suc show ?thesis by simp
      qed
      with o e len show ?thesis by auto
    qed
  qed
qed

lemma linkColumnStructure_ok: "linker_ok (linkColumnStructure fuel)"
proof (induction fuel)
  case 0
  show ?case by (simp add: linker_ok_def)
next
  case (Suc fuel)
  show ?case
    unfolding linker_ok_def
  proof (intro allI impI)
    fix h c p d out
    assume run: "linkColumnStructure (Suc fuel) h c p d = Some out"
    show "extends h (heap_of out)
          \<and> (\<forall>hf r. out = Returns hf r \<longrightarrow> (\<exists>arr. r = HRef arr \<and> length h \<le> arr \<and> arr < length hf))"
    proof (cases "array_elems h c")
      case None
      with run show ?thesis by (auto simp: extends_refl)
    next
      case (Some vs)
      with run have *:
        "and_then (link_columns (linkColumnStructure fuel) h vs p d)
           (\<lambda>h' linked. Some (Returns (h' @ [HArray linked]) (HRef (length h')))) = Some out"
        by simp
      from and_then_Some [OF *] show ?thesis
      proof (elim disjE exE conjE)
        fix e h1 assume t: "link_columns (linkColumnStructure fuel) h vs p d = Some (Throws e h1)"
          "out = Throws e h1"
        from link_columns_ok [OF Suc t(1)] t(2) show ?thesis by simp
      next
        fix h1 linked
        assume r: "link_columns (linkColumnStructure fuel) h vs p d = Some (Returns h1 linked)"
          and o: "Some (Returns (h1 @ [HArray linked]) (HRef (length h1))) = Some out"
        from link_columns_ok [OF Suc r] have e1: "extends h h1" by simp
        then have "extends h (h1 @ [HArray linked])"
          using extends_append extends_trans by blast
        with o extends_length [OF e1] show ?thesis by auto
      qed
    qed
  qed
qed

subsection \<open>The store below the new addresses\<close>

lemma valid_in_extends: "extends h h' \<Longrightarrow> valid_in h v \<Longrightarrow> valid_in h' v"
  using extends_length [of h h'] by (cases v) (auto simp: valid_in_def)

lemma array_elems_extends:
  assumes "extends h h'" and "valid_in h c"
  shows "array_elems h' c = array_elems h c"
proof (cases c)
  case (HRef a)
  with assms(2) have a: "a < length h" by (simp add: valid_in_def)
  with assms(1) have "h' ! a = h ! a" "a < length h'"
    using extends_nth extends_length by fastforce+
  with HRef a show ?thesis by (simp add: array_elems_def)
qed (simp_all add: array_elems_def)

lemma closed_heap_elems:
  assumes "closed_heap h" and "array_elems h c = Some vs" and "v \<in> set vs"
  shows "valid_in h v"
proof (cases c)
  case (HRef a)
  with assms(2) have a: "a < length h" "h ! a = HArray vs"
    by (auto simp: array_elems_def split: if_splits hobj.splits)
  from assms(1) a(1) have
    "case h ! a of HObject ps \<Rightarrow> (\<forall>kv\<in>set ps. valid_in h (snd kv))
                 | HArray vs \<Rightarrow> (\<forall>v\<in>set vs. valid_in h v)"
    unfolding closed_heap_def by blast
  with a(2) assms(3) show ?thesis by simp
qed (use assms(2) in \<open>simp_all add: array_elems_def\<close>)

lemma get_prop_cases: "get_prop ps k = HUndefined \<or> (\<exists>kv\<in>set ps. get_prop ps k = snd kv)"
proof (cases "map_of ps k")
  case None
  then show ?thesis by (simp add: get_prop_def)
next
  case (Some v)
  then have "(k, v) \<in> set ps" by (rule map_of_SomeD)
  with Some show ?thesis by (force simp: get_prop_def)
qed

lemma closed_heap_spread:
  assumes "closed_heap h" and "valid_in h v" and "kv \<in> set (spread h v)"
  shows "valid_in h (snd kv)"
proof (cases v)
  case (HRef a)
  with assms(2) have a: "a < length h" by (simp add: valid_in_def)
  from assms(1) a have c:
    "case h ! a of HObject ps \<Rightarrow> (\<forall>kv\<in>set ps. valid_in h (snd kv))
                 | HArray vs \<Rightarrow> (\<forall>v\<in>set vs. valid_in h v)"
    unfolding closed_heap_def by blast
  show ?thesis
  proof (cases "h ! a")
    case (HObject ps)
    with c have "\<forall>kv\<in>set ps. valid_in h (snd kv)" by simp
    with assms(3) HRef a HObject show ?thesis by (simp add: spread_def)
  next
    case (HArray vs)
    with c have "\<forall>v\<in>set vs. valid_in h v" by simp
    with assms(3) HRef a HArray show ?thesis by (auto simp: spread_def index_props_def)
  qed
next
  case (HStr s)
  with assms(3) show ?thesis by (auto simp: spread_def index_props_def valid_in_def)
qed (use assms(3) in \<open>simp_all add: spread_def\<close>)

lemma closed_heap_prop:
  assumes "closed_heap h" and "valid_in h v"
  shows "valid_in h (get_prop (spread h v) k)"
  using get_prop_cases [of "spread h v" k] closed_heap_spread [OF assms]
  by (auto simp: valid_in_def)

lemma nested_within_Suc: "nested_within n h c \<Longrightarrow> nested_within (Suc n) h c"
proof (induction n arbitrary: c)
  case 0
  then show ?case by simp
next
  case (Suc n)
  show ?case
  proof (cases "array_elems h c")
    case None
    then show ?thesis by simp
  next
    case (Some vs)
    with Suc.prems have
      "\<forall>v\<in>set vs. htruthy (get_prop (spread h v) ''columns'') \<longrightarrow>
          nested_within n h (get_prop (spread h v) ''columns'')"
      by (simp add: list_all_iff)
    with Suc.IH have
      "\<forall>v\<in>set vs. htruthy (get_prop (spread h v) ''columns'') \<longrightarrow>
          nested_within (Suc n) h (get_prop (spread h v) ''columns'')" by blast
    with Some show ?thesis
      by (subst nested_within.simps(2)) (simp add: list_all_iff del: nested_within.simps)
  qed
qed

lemma nested_within_mono: "nested_within n h c \<Longrightarrow> n \<le> m \<Longrightarrow> nested_within m h c"
  by (induction m) (auto simp: le_Suc_eq nested_within_Suc simp del: nested_within.simps)

lemma agree_above_extends: "extends hf hf' \<Longrightarrow> agree_above m hf hf'"
  using extends_nth [of hf hf'] extends_length [of hf hf'] by (simp add: agree_above_def)

lemma agree_above_write_field: "a < m \<Longrightarrow> agree_above m h (write_field h a k v)"
  by (cases "h ! a") (auto simp: agree_above_def write_field_def)

lemma agree_above_le: "agree_above m hf hf' \<Longrightarrow> m \<le> m' \<Longrightarrow> agree_above m' hf hf'"
  by (simp add: agree_above_def)

lemma copy_of_agree:
  assumes "copy_of h hf v b p d" and "agree_above (length h) hf hf'"
  shows "copy_of h hf' v b p d"
proof -
  from assms(1) obtain ps where ps:
    "length h \<le> b" "b < length hf" "hf ! b = HObject ps"
    "get_prop ps ''parent'' = p" "get_prop ps ''depth'' = HNum d"
    "get_prop ps ''id'' = resolve_id (spread h v)"
    "htruthy (resolve_id (spread h v))"
    "get_prop ps ''accessor'' = resolve_accessor (spread h v)"
    "\<forall>k. k \<notin> {''id'', ''accessor'', ''columns'', ''parent'', ''depth''} \<longrightarrow>
        get_prop ps k = get_prop (spread h v) k"
    "if htruthy (get_prop (spread h v) ''columns'')
     then (\<exists>arr. get_prop ps ''columns'' = HRef arr \<and> length h \<le> arr \<and> arr < length hf)
     else get_prop ps ''columns'' = get_prop (spread h v) ''columns''"
    unfolding copy_of_def by blast
  from assms(2) have le: "length hf \<le> length hf'"
    and same: "\<And>a. length h \<le> a \<Longrightarrow> a < length hf \<Longrightarrow> hf' ! a = hf ! a"
    by (simp_all add: agree_above_def)
  show ?thesis
  proof (rule copy_ofI [where ps = ps])
    show "hf' ! b = HObject ps" using same [OF ps(1,2)] ps(3) by simp
    show "b < length hf'" using ps(2) le by simp
    fix k assume "k \<notin> {''id'', ''accessor'', ''columns'', ''parent'', ''depth''}"
    with ps(9) show "get_prop ps k = get_prop (spread h v) k" by blast
  next
    assume "htruthy (get_prop (spread h v) ''columns'')"
    with ps(10) obtain arr where "get_prop ps ''columns'' = HRef arr" "length h \<le> arr" "arr < length hf"
      by auto
    with le show "\<exists>arr. get_prop ps ''columns'' = HRef arr \<and> length h \<le> arr \<and> arr < length hf'"
      by auto
  next
    assume "\<not> htruthy (get_prop (spread h v) ''columns'')"
    with ps(10) show "get_prop ps ''columns'' = get_prop (spread h v) ''columns''" by simp
  qed (use ps in simp_all)
qed

lemma copy_of_address: "copy_of h hf v b p d \<Longrightarrow> length h \<le> b \<and> b < length hf"
  unfolding copy_of_def by blast

lemma read_field_agree:
  "agree_above m hf hf' \<Longrightarrow> m \<le> b \<Longrightarrow> b < length hf \<Longrightarrow> read_field hf' b k = read_field hf b k"
  by (auto simp: agree_above_def read_field_def)

subsection \<open>The linked arrays\<close>

lemma linked_array_agree:
  "linked_array n h hf c r p d \<Longrightarrow> agree_above (length h) hf hf' \<Longrightarrow> linked_array n h hf' c r p d"
proof (induction n arbitrary: c r p d)
  case 0
  then show ?case by simp
next
  case (Suc n)
  from Suc.prems(1) obtain arr vs linked where l:
    "r = HRef arr" "length h \<le> arr" "arr < length hf"
    "array_elems h c = Some vs" "hf ! arr = HArray linked" "length linked = length vs"
    and el: "\<forall>i<length vs.
              \<exists>b. linked ! i = HRef b \<and> copy_of h hf (vs ! i) b p d
                  \<and> (htruthy (get_prop (spread h (vs ! i)) ''columns'') \<longrightarrow>
                        linked_array n h hf (get_prop (spread h (vs ! i)) ''columns'')
                          (read_field hf b ''columns'') (HRef b) (d + 1))"
    by auto
  from Suc.prems(2) have le: "length hf \<le> length hf'"
    and same: "\<And>a. length h \<le> a \<Longrightarrow> a < length hf \<Longrightarrow> hf' ! a = hf ! a"
    by (simp_all add: agree_above_def)
  have el': "\<exists>b. linked ! i = HRef b \<and> copy_of h hf' (vs ! i) b p d
                  \<and> (htruthy (get_prop (spread h (vs ! i)) ''columns'') \<longrightarrow>
                        linked_array n h hf' (get_prop (spread h (vs ! i)) ''columns'')
                          (read_field hf' b ''columns'') (HRef b) (d + 1))"
    if i: "i < length vs" for i
  proof -
    from el i obtain b where b: "linked ! i = HRef b" "copy_of h hf (vs ! i) b p d"
      "htruthy (get_prop (spread h (vs ! i)) ''columns'') \<longrightarrow>
         linked_array n h hf (get_prop (spread h (vs ! i)) ''columns'')
           (read_field hf b ''columns'') (HRef b) (d + 1)" by blast
    from copy_of_address [OF b(2)] have ad: "length h \<le> b" "b < length hf" by simp_all
    have rf: "read_field hf' b ''columns'' = read_field hf b ''columns''"
      by (rule read_field_agree [OF Suc.prems(2) ad])
    have "copy_of h hf' (vs ! i) b p d" by (rule copy_of_agree [OF b(2) Suc.prems(2)])
    moreover have "htruthy (get_prop (spread h (vs ! i)) ''columns'') \<longrightarrow>
         linked_array n h hf' (get_prop (spread h (vs ! i)) ''columns'')
           (read_field hf' b ''columns'') (HRef b) (d + 1)"
      using b(3) Suc.IH [OF _ Suc.prems(2)] rf by auto
    ultimately show ?thesis using b(1) by blast
  qed
  have "hf' ! arr = HArray linked" using same [OF l(2,3)] l(5) by simp
  moreover have "arr < length hf'" using l(3) le by simp
  ultimately show ?case
    using l(1,2,4,6) el' by (subst linked_array.simps(2)) blast
qed

lemma linked_array_weaken:
  assumes c0: "closed_heap h0" and e0: "extends h0 h" and e: "extends h h'"
  shows "valid_in h0 c \<Longrightarrow> linked_array n h' hf c r p d \<Longrightarrow> linked_array n h hf c r p d"
proof (induction n arbitrary: c r p d)
  case 0
  then show ?case by simp
next
  case (Suc n)
  from Suc.prems(2) obtain arr vs linked where l:
    "r = HRef arr" "length h' \<le> arr" "arr < length hf"
    "array_elems h' c = Some vs" "hf ! arr = HArray linked" "length linked = length vs"
    and el: "\<forall>i<length vs.
              \<exists>b. linked ! i = HRef b \<and> copy_of h' hf (vs ! i) b p d
                  \<and> (htruthy (get_prop (spread h' (vs ! i)) ''columns'') \<longrightarrow>
                        linked_array n h' hf (get_prop (spread h' (vs ! i)) ''columns'')
                          (read_field hf b ''columns'') (HRef b) (d + 1))"
    by auto
  have e0': "extends h0 h'" by (rule extends_trans [OF e0 e])
  from l(4) Suc.prems(1) have a0: "array_elems h0 c = Some vs"
    by (simp add: array_elems_extends [OF e0'])
  then have a: "array_elems h c = Some vs"
    using Suc.prems(1) by (simp add: array_elems_extends [OF e0])
  have el': "\<exists>b. linked ! i = HRef b \<and> copy_of h hf (vs ! i) b p d
                  \<and> (htruthy (get_prop (spread h (vs ! i)) ''columns'') \<longrightarrow>
                        linked_array n h hf (get_prop (spread h (vs ! i)) ''columns'')
                          (read_field hf b ''columns'') (HRef b) (d + 1))"
    if i: "i < length vs" for i
  proof -
    from el i obtain b where b: "linked ! i = HRef b" "copy_of h' hf (vs ! i) b p d"
      "htruthy (get_prop (spread h' (vs ! i)) ''columns'') \<longrightarrow>
         linked_array n h' hf (get_prop (spread h' (vs ! i)) ''columns'')
           (read_field hf b ''columns'') (HRef b) (d + 1)" by blast
    from i have "vs ! i \<in> set vs" by simp
    from closed_heap_elems [OF c0 a0 this] have v0: "valid_in h0 (vs ! i)" .
    then have v: "valid_in h (vs ! i)" by (rule valid_in_extends [OF e0])
    have sp: "spread h' (vs ! i) = spread h (vs ! i)" by (rule spread_extends [OF e v])
    have sp0: "spread h (vs ! i) = spread h0 (vs ! i)" by (rule spread_extends [OF e0 v0])
    have vc: "valid_in h0 (get_prop (spread h (vs ! i)) ''columns'')"
      unfolding sp0 by (rule closed_heap_prop [OF c0 v0])
    have "copy_of h hf (vs ! i) b p d" by (rule copy_of_weaken [OF e v b(2)])
    moreover have "htruthy (get_prop (spread h (vs ! i)) ''columns'') \<longrightarrow>
         linked_array n h hf (get_prop (spread h (vs ! i)) ''columns'')
           (read_field hf b ''columns'') (HRef b) (d + 1)"
      using b(3) Suc.IH [OF vc] by (simp add: sp)
    ultimately show ?thesis using b(1) by blast
  qed
  have "length h \<le> arr" using l(2) extends_length [OF e] by simp
  then show ?case
    using l(1,3,5,6) a el' by (subst linked_array.simps(2)) blast
qed

lemma linker_copiesD:
  assumes "linker_copies h0 n f" and "extends h0 h" and "valid_in h0 c"
    and "f h c p d = Some (Returns hf r)"
  shows "linked_array n h hf c r p d"
  using assms unfolding linker_copies_def by blast

lemma link_column_copies:
  assumes c0: "closed_heap h0" and f: "linker_ok f" and fc: "linker_copies h0 n f"
    and e0: "extends h0 h" and v0: "valid_in h0 v"
    and run: "link_column f h v p d = Some (Returns hf r)"
    and t: "htruthy (get_prop (spread h v) ''columns'')"
  shows "linked_array n h hf (get_prop (spread h v) ''columns'')
           (read_field hf (length h) ''columns'') (HRef (length h)) (d + 1)"
proof -
  let ?ps0 = "copy_props h v p d"
  obtain ps' where Inr: "assign_props ?ps0 = Inr ps'"
    using run by (cases "assign_props ?ps0") (auto simp: link_column_throws)
  from assign_props_result(3) [OF Inr, of "''columns''"]
  have cols: "get_prop ps' ''columns'' = get_prop (spread h v) ''columns''"
    by (simp add: copy_props_def get_set_prop)
  let ?c = "get_prop (spread h v) ''columns''"
  let ?h2 = "h @ [HObject ps']"
  from t cols have True: "htruthy (get_prop ps' ''columns'')" by simp
  from run link_column_group [OF Inr True, of f] cols have *:
    "and_then (f ?h2 ?c (HRef (length h)) (d + 1))
       (\<lambda>h3 cols. Some (Returns (write_field h3 (length h) ''columns'' cols) (HRef (length h))))
     = Some (Returns hf r)"
    by simp
  from and_then_Some [OF *] obtain h3 cs where
    o3: "f ?h2 ?c (HRef (length h)) (d + 1) = Some (Returns h3 cs)"
    and hf: "hf = write_field h3 (length h) ''columns'' cs"
    by auto
  have e2: "extends h ?h2" by (rule extends_append)
  have e02: "extends h0 ?h2" by (rule extends_trans [OF e0 e2])
  have sp0: "spread h v = spread h0 v" by (rule spread_extends [OF e0 v0])
  have vc: "valid_in h0 ?c" unfolding sp0 by (rule closed_heap_prop [OF c0 v0])
  from linker_copiesD [OF fc e02 vc o3]
  have l3: "linked_array n ?h2 h3 ?c cs (HRef (length h)) (d + 1)" .
  have "agree_above (length ?h2) h3 hf" unfolding hf by (rule agree_above_write_field) simp
  from linked_array_agree [OF l3 this]
  have "linked_array n ?h2 hf ?c cs (HRef (length h)) (d + 1)" .
  from linked_array_weaken [OF c0 e0 e2 vc this]
  have l: "linked_array n h hf ?c cs (HRef (length h)) (d + 1)" .
  from linker_okD(1) [OF f o3] have e3: "extends ?h2 h3" by simp
  from e3 have len: "length h < length h3" using extends_length by fastforce
  from extends_nth [OF e3, of "length h"] have at: "h3 ! length h = HObject ps'" by simp
  from len at hf have "read_field hf (length h) ''columns'' = cs"
    by (simp add: write_field_def read_field_def get_set_prop)
  with l show ?thesis by simp
qed

lemma link_columns_copies:
  assumes c0: "closed_heap h0" and f: "linker_ok f" and fc: "linker_copies h0 n f"
  shows "extends h0 h \<Longrightarrow> \<forall>v\<in>set vs. valid_in h0 v \<Longrightarrow>
         link_columns f h vs p d = Some (Returns hf cs) \<Longrightarrow>
         length cs = length vs
         \<and> (\<forall>i<length vs.
               \<exists>b. cs ! i = HRef b \<and> copy_of h hf (vs ! i) b p d
                   \<and> (htruthy (get_prop (spread h (vs ! i)) ''columns'') \<longrightarrow>
                         linked_array n h hf (get_prop (spread h (vs ! i)) ''columns'')
                           (read_field hf b ''columns'') (HRef b) (d + 1)))"
proof (induction vs arbitrary: h cs)
  case Nil
  then show ?case by auto
next
  case (Cons v vs)
  from Cons.prems(3) have *:
    "and_then (link_column f h v p d)
       (\<lambda>h' c. and_then (link_columns f h' vs p d) (\<lambda>h'' cs. Some (Returns h'' (c # cs))))
     = Some (Returns hf cs)" by simp
  from and_then_Some [OF *] obtain h1 c where
    c: "link_column f h v p d = Some (Returns h1 c)"
    and rest: "and_then (link_columns f h1 vs p d) (\<lambda>h'' cs. Some (Returns h'' (c # cs)))
                 = Some (Returns hf cs)"
    by auto
  from and_then_Some [OF rest] obtain cs' where
    r: "link_columns f h1 vs p d = Some (Returns hf cs')" and cs: "cs = c # cs'"
    by auto
  from Cons.prems(2) have v0: "valid_in h0 v" and vs0: "\<forall>v\<in>set vs. valid_in h0 v" by simp_all
  from link_column_ok [OF f c] have e1: "extends h h1"
    and c1: "c = HRef (length h)" "copy_of h h1 v (length h) p d" by simp_all
  have e01: "extends h0 h1" by (rule extends_trans [OF Cons.prems(1) e1])
  from link_columns_ok [OF f r] have e2: "extends h1 hf" by simp
  have ag: "agree_above (length h) h1 hf" by (rule agree_above_extends [OF e2])
  from Cons.IH [OF e01 vs0 r] have len: "length cs' = length vs"
    and el: "\<forall>i<length vs.
               \<exists>b. cs' ! i = HRef b \<and> copy_of h1 hf (vs ! i) b p d
                   \<and> (htruthy (get_prop (spread h1 (vs ! i)) ''columns'') \<longrightarrow>
                         linked_array n h1 hf (get_prop (spread h1 (vs ! i)) ''columns'')
                           (read_field hf b ''columns'') (HRef b) (d + 1))"
    by simp_all
  have "\<exists>b. (c # cs') ! i = HRef b \<and> copy_of h hf ((v # vs) ! i) b p d
            \<and> (htruthy (get_prop (spread h ((v # vs) ! i)) ''columns'') \<longrightarrow>
                  linked_array n h hf (get_prop (spread h ((v # vs) ! i)) ''columns'')
                    (read_field hf b ''columns'') (HRef b) (d + 1))"
    if i: "i < length (v # vs)" for i
  proof (cases i)
    case 0
    have cp: "copy_of h hf v (length h) p d" by (rule copy_of_agree [OF c1(2) ag])
    have "linked_array n h hf (get_prop (spread h v) ''columns'')
            (read_field hf (length h) ''columns'') (HRef (length h)) (d + 1)"
      if t: "htruthy (get_prop (spread h v) ''columns'')"
    proof -
      from c c1(1) have c': "link_column f h v p d = Some (Returns h1 (HRef (length h)))" by simp
      from link_column_copies [OF c0 f fc Cons.prems(1) v0 c' t]
      have "linked_array n h h1 (get_prop (spread h v) ''columns'')
              (read_field h1 (length h) ''columns'') (HRef (length h)) (d + 1)" .
      from linked_array_agree [OF this ag]
      have "linked_array n h hf (get_prop (spread h v) ''columns'')
              (read_field h1 (length h) ''columns'') (HRef (length h)) (d + 1)" .
      moreover from copy_of_address [OF c1(2)] have "length h < length h1" by simp
      then have "read_field hf (length h) ''columns'' = read_field h1 (length h) ''columns''"
        by (intro read_field_agree [OF ag]) simp_all
      ultimately show ?thesis by simp
    qed
    with cp c1(1) 0 show ?thesis by simp
  next
    case (Suc j)
    with i have j: "j < length vs" by simp
    then have "vs ! j \<in> set vs" by simp
    with vs0 have vj0: "valid_in h0 (vs ! j)" by simp
    then have vj: "valid_in h (vs ! j)" by (rule valid_in_extends [OF Cons.prems(1)])
    have sp: "spread h1 (vs ! j) = spread h (vs ! j)" by (rule spread_extends [OF e1 vj])
    have sp0: "spread h (vs ! j) = spread h0 (vs ! j)"
      by (rule spread_extends [OF Cons.prems(1) vj0])
    have vc: "valid_in h0 (get_prop (spread h (vs ! j)) ''columns'')"
      unfolding sp0 by (rule closed_heap_prop [OF c0 vj0])
    from el j obtain b where b: "cs' ! j = HRef b" "copy_of h1 hf (vs ! j) b p d"
      "htruthy (get_prop (spread h1 (vs ! j)) ''columns'') \<longrightarrow>
         linked_array n h1 hf (get_prop (spread h1 (vs ! j)) ''columns'')
           (read_field hf b ''columns'') (HRef b) (d + 1)" by blast
    have "copy_of h hf (vs ! j) b p d" by (rule copy_of_weaken [OF e1 vj b(2)])
    moreover have "htruthy (get_prop (spread h (vs ! j)) ''columns'') \<longrightarrow>
         linked_array n h hf (get_prop (spread h (vs ! j)) ''columns'')
           (read_field hf b ''columns'') (HRef b) (d + 1)"
      using b(3) linked_array_weaken [OF c0 Cons.prems(1) e1 vc] by (simp add: sp)
    ultimately show ?thesis using b(1) Suc by simp
  qed
  with cs len show ?case by simp
qed

lemma linkColumnStructure_copies:
  assumes c0: "closed_heap h0"
  shows "linker_copies h0 n (linkColumnStructure n)"
proof (induction n)
  case 0
  show ?case by (simp add: linker_copies_def)
next
  case (Suc n)
  show ?case
    unfolding linker_copies_def
  proof (intro allI impI)
    fix h c p d hf r
    assume e0: "extends h0 h" and v0: "valid_in h0 c"
      and run: "linkColumnStructure (Suc n) h c p d = Some (Returns hf r)"
    show "linked_array (Suc n) h hf c r p d"
    proof (cases "array_elems h c")
      case None
      with run show ?thesis by simp
    next
      case (Some vs)
      with run have *:
        "and_then (link_columns (linkColumnStructure n) h vs p d)
           (\<lambda>h' linked. Some (Returns (h' @ [HArray linked]) (HRef (length h')))) = Some (Returns hf r)"
        by simp
      from and_then_Some [OF *] obtain h1 linked where
        r1: "link_columns (linkColumnStructure n) h vs p d = Some (Returns h1 linked)"
        and hf: "hf = h1 @ [HArray linked]" and r: "r = HRef (length h1)"
        by auto
      from Some v0 have a0: "array_elems h0 c = Some vs"
        by (simp add: array_elems_extends [OF e0])
      then have vs0: "\<forall>v\<in>set vs. valid_in h0 v" using closed_heap_elems [OF c0] by blast
      from link_columns_ok [OF linkColumnStructure_ok r1] have e1: "extends h h1" by simp
      have ag: "agree_above (length h) h1 hf" unfolding hf
        by (rule agree_above_extends [OF extends_append])
      from link_columns_copies [OF c0 linkColumnStructure_ok Suc e0 vs0 r1]
      have len: "length linked = length vs"
        and el: "\<forall>i<length vs.
               \<exists>b. linked ! i = HRef b \<and> copy_of h h1 (vs ! i) b p d
                   \<and> (htruthy (get_prop (spread h (vs ! i)) ''columns'') \<longrightarrow>
                         linked_array n h h1 (get_prop (spread h (vs ! i)) ''columns'')
                           (read_field h1 b ''columns'') (HRef b) (d + 1))"
        by simp_all
      have el': "\<exists>b. linked ! i = HRef b \<and> copy_of h hf (vs ! i) b p d
                   \<and> (htruthy (get_prop (spread h (vs ! i)) ''columns'') \<longrightarrow>
                         linked_array n h hf (get_prop (spread h (vs ! i)) ''columns'')
                           (read_field hf b ''columns'') (HRef b) (d + 1))"
        if i: "i < length vs" for i
      proof -
        from el i obtain b where b: "linked ! i = HRef b" "copy_of h h1 (vs ! i) b p d"
          "htruthy (get_prop (spread h (vs ! i)) ''columns'') \<longrightarrow>
             linked_array n h h1 (get_prop (spread h (vs ! i)) ''columns'')
               (read_field h1 b ''columns'') (HRef b) (d + 1)" by blast
        from copy_of_address [OF b(2)] have ad: "length h \<le> b" "b < length h1" by simp_all
        have rf: "read_field hf b ''columns'' = read_field h1 b ''columns''"
          by (rule read_field_agree [OF ag ad])
        have "copy_of h hf (vs ! i) b p d" by (rule copy_of_agree [OF b(2) ag])
        moreover have "htruthy (get_prop (spread h (vs ! i)) ''columns'') \<longrightarrow>
             linked_array n h hf (get_prop (spread h (vs ! i)) ''columns'')
               (read_field hf b ''columns'') (HRef b) (d + 1)"
          using b(3) linked_array_agree [OF _ ag] rf by auto
        ultimately show ?thesis using b(1) by blast
      qed
      have "hf ! length h1 = HArray linked" "length h1 < length hf" by (simp_all add: hf)
      moreover have "length h \<le> length h1" by (rule extends_length [OF e1])
      ultimately show ?thesis
        using r Some len el' by (subst linked_array.simps(2)) blast
    qed
  qed
qed

subsection \<open>The recursion ends\<close>

lemma linker_returnsD:
  assumes "linker_returns h0 n f" and "extends h0 h" and "valid_in h0 c" and "nested_within n h0 c"
  shows "\<exists>out. f h c p d = Some out"
  using assms unfolding linker_returns_def by blast

lemma and_then_returns:
  assumes "x = Some y" and "\<And>h r. y = Returns h r \<Longrightarrow> \<exists>out. g h r = Some out"
  shows "\<exists>out. and_then x g = Some out"
  using assms by (cases y) auto

lemma link_column_returns:
  assumes c0: "closed_heap h0" and fr: "linker_returns h0 n f"
    and e0: "extends h0 h" and v0: "valid_in h0 v"
    and nest: "htruthy (get_prop (spread h0 v) ''columns'') \<longrightarrow>
                 nested_within n h0 (get_prop (spread h0 v) ''columns'')"
  shows "\<exists>out. link_column f h v p d = Some out"
proof (cases "assign_props (copy_props h v p d)")
  case (Inl e)
  then show ?thesis by (simp add: link_column_throws)
next
  case (Inr ps')
  from assign_props_result(3) [OF Inr, of "''columns''"]
  have cols: "get_prop ps' ''columns'' = get_prop (spread h v) ''columns''"
    by (simp add: copy_props_def get_set_prop)
  have sp0: "spread h v = spread h0 v" by (rule spread_extends [OF e0 v0])
  show ?thesis
  proof (cases "htruthy (get_prop ps' ''columns'')")
    case False
    with Inr show ?thesis by (simp add: link_column_leaf)
  next
    case True
    let ?c = "get_prop ps' ''columns''"
    let ?h2 = "h @ [HObject ps']"
    have e02: "extends h0 ?h2" by (rule extends_trans [OF e0 extends_append])
    have vc: "valid_in h0 ?c" unfolding cols sp0 by (rule closed_heap_prop [OF c0 v0])
    from True nest have "nested_within n h0 ?c" by (simp add: cols sp0)
    from linker_returnsD [OF fr e02 vc this] obtain o3 where
      "f ?h2 ?c (HRef (length h)) (d + 1) = Some o3" by blast
    then have "\<exists>out. and_then (f ?h2 ?c (HRef (length h)) (d + 1))
                 (\<lambda>h3 cols. Some (Returns (write_field h3 (length h) ''columns'' cols)
                                    (HRef (length h)))) = Some out"
      by (rule and_then_returns) simp
    with link_column_group [OF Inr True, of f] show ?thesis by simp
  qed
qed

lemma link_columns_returns:
  assumes c0: "closed_heap h0" and f: "linker_ok f" and fr: "linker_returns h0 n f"
  shows "extends h0 h \<Longrightarrow>
         \<forall>v\<in>set vs. valid_in h0 v
            \<and> (htruthy (get_prop (spread h0 v) ''columns'') \<longrightarrow>
                 nested_within n h0 (get_prop (spread h0 v) ''columns'')) \<Longrightarrow>
         \<exists>out. link_columns f h vs p d = Some out"
proof (induction vs arbitrary: h)
  case Nil
  show ?case by simp
next
  case (Cons v vs)
  from Cons.prems(2) have v: "valid_in h0 v"
    "htruthy (get_prop (spread h0 v) ''columns'') \<longrightarrow>
       nested_within n h0 (get_prop (spread h0 v) ''columns'')" by simp_all
  from link_column_returns [OF c0 fr Cons.prems(1) v] obtain o1 where
    o1: "link_column f h v p d = Some o1" by blast
  have "\<exists>out. and_then (link_column f h v p d)
          (\<lambda>h' c. and_then (link_columns f h' vs p d) (\<lambda>h'' cs. Some (Returns h'' (c # cs))))
        = Some out"
  proof (rule and_then_returns [OF o1])
    fix h1 c assume r: "o1 = Returns h1 c"
    with link_column_ok(1) [OF f o1] have "extends h h1" by simp
    with Cons.prems(1) have e01: "extends h0 h1" by (rule extends_trans)
    from Cons.prems(2) have "\<forall>v\<in>set vs. valid_in h0 v
            \<and> (htruthy (get_prop (spread h0 v) ''columns'') \<longrightarrow>
                 nested_within n h0 (get_prop (spread h0 v) ''columns''))" by simp
    from Cons.IH [OF e01 this] obtain o2 where o2: "link_columns f h1 vs p d = Some o2" by blast
    show "\<exists>out. and_then (link_columns f h1 vs p d) (\<lambda>h'' cs. Some (Returns h'' (c # cs)))
            = Some out"
      by (rule and_then_returns [OF o2]) simp
  qed
  then show ?case by simp
qed

lemma linkColumnStructure_returns:
  assumes c0: "closed_heap h0"
  shows "linker_returns h0 n (linkColumnStructure n)"
proof (induction n)
  case 0
  show ?case by (simp add: linker_returns_def)
next
  case (Suc n)
  show ?case
    unfolding linker_returns_def
  proof (intro allI impI)
    fix h c p d
    assume e0: "extends h0 h" and v0: "valid_in h0 c" and nest: "nested_within (Suc n) h0 c"
    have a: "array_elems h c = array_elems h0 c" by (rule array_elems_extends [OF e0 v0])
    show "linkColumnStructure (Suc n) h c p d \<noteq> None"
    proof (cases "array_elems h0 c")
      case None
      with a show ?thesis by simp
    next
      case (Some vs)
      with nest have "\<forall>v\<in>set vs. htruthy (get_prop (spread h0 v) ''columns'') \<longrightarrow>
                        nested_within n h0 (get_prop (spread h0 v) ''columns'')"
        by (simp add: list_all_iff)
      with closed_heap_elems [OF c0 Some] have
        "\<forall>v\<in>set vs. valid_in h0 v
            \<and> (htruthy (get_prop (spread h0 v) ''columns'') \<longrightarrow>
                 nested_within n h0 (get_prop (spread h0 v) ''columns''))" by blast
      from link_columns_returns [OF c0 linkColumnStructure_ok Suc e0 this] obtain o1 where
        o1: "link_columns (linkColumnStructure n) h vs p d = Some o1" by blast
      have "\<exists>out. and_then (link_columns (linkColumnStructure n) h vs p d)
                (\<lambda>h' linked. Some (Returns (h' @ [HArray linked]) (HRef (length h')))) = Some out"
        by (rule and_then_returns [OF o1]) simp
      with a Some show ?thesis by auto
    qed
  qed
qed

text \<open>
  Claim C10. Whatever \<open>linkColumnStructure\<close> does (return or throw), the store it
  leaves holds at every old address what it held before: no object and no array of the
  caller's configuration is modified; id and accessor are assigned to the copies only.
  For a store without dangling references: when it returns, the result is a newly
  allocated array of newly allocated column objects, one for each element of the input
  array, each a copy of its node extended with \<open>parent\<close> and \<open>depth\<close> (and the
  resolved \<open>id\<close> and \<open>accessor\<close>), and the \<open>columns\<close> of every copy is in turn the
  linked array of the node's \<open>columns\<close>, through all levels; and for a configuration
  whose column arrays nest within \<open>n\<close> levels, the call does end (by returning or
  throwing) whenever the bound on the depth of the recursion is at least \<open>n\<close>.
\<close>

theorem linkColumnStructure_preserves_input:
  "(linkColumnStructure fuel h columns parent' depth = Some out \<longrightarrow>
      length h \<le> length (heap_of out) \<and> take (length h) (heap_of out) = h)
   \<and> (closed_heap h \<and> valid_in h columns \<longrightarrow>
        (\<forall>hf r. linkColumnStructure fuel h columns parent' depth = Some (Returns hf r) \<longrightarrow>
            linked_array fuel h hf columns r parent' depth)
        \<and> (nested_within n h columns \<and> n \<le> fuel \<longrightarrow>
            (\<exists>res. linkColumnStructure fuel h columns parent' depth = Some res)))"
proof (intro conjI impI allI)
  assume "linkColumnStructure fuel h columns parent' depth = Some out"
  from linker_okD(1) [OF linkColumnStructure_ok this]
  show "length h \<le> length (heap_of out)" and "take (length h) (heap_of out) = h"
    by (simp_all add: extends_def)
next
  fix hf r
  assume w: "closed_heap h \<and> valid_in h columns"
    and run: "linkColumnStructure fuel h columns parent' depth = Some (Returns hf r)"
  from w linkColumnStructure_copies [of h fuel] have "linker_copies h fuel (linkColumnStructure fuel)"
    by simp
  from linker_copiesD [OF this extends_refl _ run] w
  show "linked_array fuel h hf columns r parent' depth" by simp
next
  assume w: "closed_heap h \<and> valid_in h columns" and n: "nested_within n h columns \<and> n \<le> fuel"
  from n have "nested_within fuel h columns" using nested_within_mono by blast
  moreover from w linkColumnStructure_returns [of h fuel]
  have "linker_returns h fuel (linkColumnStructure fuel)" by simp
  ultimately show "\<exists>res. linkColumnStructure fuel h columns parent' depth = Some res"
    using w linker_returnsD [OF _ extends_refl] by blast
qed


lemma assignColumnAccessor_object:
  "column < length h \<Longrightarrow> h ! column = HObject ps \<Longrightarrow>
   assignColumnAccessor h column =
     (case assign_props ps of
        Inl e \<Rightarrow> Throws e h
      | Inr ps' \<Rightarrow> Returns (h[column := HObject ps']) (HRef column))"
  by (simp add: assignColumnAccessor_def)

lemma assign_props_resolved:
  "htruthy (resolve_id ps) \<Longrightarrow>
   assign_props ps = Inr (set_prop (set_prop ps ''id'' (resolve_id ps)) ''accessor'' (resolve_accessor ps))"
  by (simp add: assign_props_def Let_def)

lemma assign_props_unresolved:
  "\<not> htruthy (resolve_id ps) \<Longrightarrow>
   assign_props ps =
     Inl (Error (if htruthy (get_prop ps ''columns'') then id_with_columns_required else id_required))"
  by (simp add: assign_props_def Let_def)

lemma resolve_id_explicit: "htruthy (get_prop ps ''id'') \<Longrightarrow> resolve_id ps = get_prop ps ''id''"
  by (simp add: resolve_id_def Let_def split: hval.splits)

lemma resolve_id_accessor:
  "\<not> htruthy (get_prop ps ''id'') \<Longrightarrow> is_string (get_prop ps ''accessor'') \<Longrightarrow>
   htruthy (get_prop ps ''accessor'') \<Longrightarrow> resolve_id ps = get_prop ps ''accessor''"
  by (auto simp: resolve_id_def Let_def is_string_def split: hval.splits)

lemma resolve_id_header:
  "\<not> htruthy (get_prop ps ''id'') \<Longrightarrow>
   \<not> (is_string (get_prop ps ''accessor'') \<and> htruthy (get_prop ps ''accessor'')) \<Longrightarrow>
   is_string (get_prop ps ''Header'') \<Longrightarrow> htruthy (get_prop ps ''Header'') \<Longrightarrow>
   resolve_id ps = get_prop ps ''Header''"
  by (auto simp: resolve_id_def Let_def is_string_def split: hval.splits)

lemma resolve_id_none:
  "\<not> htruthy (get_prop ps ''id'') \<Longrightarrow>
   \<not> (is_string (get_prop ps ''accessor'') \<and> htruthy (get_prop ps ''accessor'')) \<Longrightarrow>
   \<not> (is_string (get_prop ps ''Header'') \<and> htruthy (get_prop ps ''Header'')) \<Longrightarrow>
   \<not> htruthy (resolve_id ps)"
  by (auto simp: resolve_id_def Let_def is_string_def split: hval.splits)

lemma read_field_update:
  "column < length h \<Longrightarrow> read_field (h[column := HObject ps]) column k = get_prop ps k"
  by (simp add: read_field_def)

text \<open>
  Claim C1, as amended. The id of a column object is resolved in the order explicit
  \<open>id\<close>, string accessor, string \<open>Header\<close>, each tested for truthiness. When its
  explicit \<open>id\<close> is truthy, the materialized \<open>id\<close> is that id, whatever its accessor
  and \<open>Header\<close>. When its \<open>id\<close> is absent or falsy and its accessor is a non-empty
  string, the materialized \<open>id\<close> is the accessor string, whatever its \<open>Header\<close>. When
  its \<open>id\<close> is absent or falsy, its accessor is not a non-empty string and its
  \<open>Header\<close> is a non-empty string, the materialized \<open>id\<close> is the \<open>Header\<close>. When
  none of the three is there, \<open>assignColumnAccessor\<close> throws a configuration error and
  leaves the store as it was, and so does the callback of \<open>linkColumnStructure\<close> for
  that column, at once, before any nested column is visited (and so before any row is).
\<close>

theorem column_id_resolution:
  assumes "column < length h" and "h ! column = HObject ps"
  shows "(htruthy (get_prop ps ''id'') \<longrightarrow>
            (\<exists>h'. assignColumnAccessor h column = Returns h' (HRef column)
                   \<and> read_field h' column ''id'' = get_prop ps ''id''))
         \<and> (\<not> htruthy (get_prop ps ''id'') \<and> is_string (get_prop ps ''accessor'')
              \<and> htruthy (get_prop ps ''accessor'') \<longrightarrow>
            (\<exists>h'. assignColumnAccessor h column = Returns h' (HRef column)
                   \<and> read_field h' column ''id'' = get_prop ps ''accessor''))
         \<and> (\<not> htruthy (get_prop ps ''id'')
              \<and> \<not> (is_string (get_prop ps ''accessor'') \<and> htruthy (get_prop ps ''accessor''))
              \<and> is_string (get_prop ps ''Header'') \<and> htruthy (get_prop ps ''Header'') \<longrightarrow>
            (\<exists>h'. assignColumnAccessor h column = Returns h' (HRef column)
                   \<and> read_field h' column ''id'' = get_prop ps ''Header''))
         \<and> (\<not> htruthy (get_prop ps ''id'')
              \<and> \<not> (is_string (get_prop ps ''accessor'') \<and> htruthy (get_prop ps ''accessor''))
              \<and> \<not> (is_string (get_prop ps ''Header'') \<and> htruthy (get_prop ps ''Header'')) \<longrightarrow>
            assignColumnAccessor h column =
              Throws (Error (if htruthy (get_prop ps ''columns'')
                             then id_with_columns_required else id_required)) h
            \<and> link_column recurse h (HRef column) parent' depth =
                Some (Throws (Error (if htruthy (get_prop ps ''columns'')
                                     then id_with_columns_required else id_required))
                        (h @ [HObject (copy_props h (HRef column) parent' depth)])))"
proof (intro conjI impI)
  assume t: "htruthy (get_prop ps ''id'')"
  then have "htruthy (resolve_id ps)" "resolve_id ps = get_prop ps ''id''"
    by (simp_all add: resolve_id_explicit)
  with assms assign_props_resolved [of ps]
  show "\<exists>h'. assignColumnAccessor h column = Returns h' (HRef column)
             \<and> read_field h' column ''id'' = get_prop ps ''id''"
    by (simp add: assignColumnAccessor_object read_field_update get_set_prop)
next
  assume "\<not> htruthy (get_prop ps ''id'') \<and> is_string (get_prop ps ''accessor'')
            \<and> htruthy (get_prop ps ''accessor'')"
  then have "htruthy (resolve_id ps)" "resolve_id ps = get_prop ps ''accessor''"
    by (simp_all add: resolve_id_accessor)
  with assms assign_props_resolved [of ps]
  show "\<exists>h'. assignColumnAccessor h column = Returns h' (HRef column)
             \<and> read_field h' column ''id'' = get_prop ps ''accessor''"
    by (simp add: assignColumnAccessor_object read_field_update get_set_prop)
next
  assume "\<not> htruthy (get_prop ps ''id'')
            \<and> \<not> (is_string (get_prop ps ''accessor'') \<and> htruthy (get_prop ps ''accessor''))
            \<and> is_string (get_prop ps ''Header'') \<and> htruthy (get_prop ps ''Header'')"
  then have "htruthy (resolve_id ps)" "resolve_id ps = get_prop ps ''Header''"
    by (simp_all add: resolve_id_header)
  with assms assign_props_resolved [of ps]
  show "\<exists>h'. assignColumnAccessor h column = Returns h' (HRef column)
             \<and> read_field h' column ''id'' = get_prop ps ''Header''"
    by (simp add: assignColumnAccessor_object read_field_update get_set_prop)
next
  assume u: "\<not> htruthy (get_prop ps ''id'')
            \<and> \<not> (is_string (get_prop ps ''accessor'') \<and> htruthy (get_prop ps ''accessor''))
            \<and> \<not> (is_string (get_prop ps ''Header'') \<and> htruthy (get_prop ps ''Header''))"
  then have n: "\<not> htruthy (resolve_id ps)" by (simp add: resolve_id_none)
  with assms assign_props_unresolved [of ps]
  show "assignColumnAccessor h column =
          Throws (Error (if htruthy (get_prop ps ''columns'')
                         then id_with_columns_required else id_required)) h"
    by (simp add: assignColumnAccessor_object)
  from assms have sp: "spread h (HRef column) = ps" by (simp add: spread_def)
  have c: "get_prop (copy_props h (HRef column) parent' depth) ''columns'' = get_prop ps ''columns''"
    by (simp add: copy_props_def get_set_prop sp)
  from n have "\<not> htruthy (resolve_id (copy_props h (HRef column) parent' depth))"
    by (simp add: resolve_copy_props sp)
  from link_column_throws [OF assign_props_unresolved [OF this], of recurse] c
  show "link_column recurse h (HRef column) parent' depth =
          Some (Throws (Error (if htruthy (get_prop ps ''columns'')
                               then id_with_columns_required else id_required))
                  (h @ [HObject (copy_props h (HRef column) parent' depth)]))"
    by simp
qed

lemmas link_eval =
  link_column_def assignColumnAccessor_def assign_props_def resolve_id_def resolve_accessor_def
  copy_props_def spread_def read_field_def write_field_def array_elems_def get_prop_def
  is_string_def Let_def example_heap_def

theorem column_id_resolution_witness:
  "(\<exists>h'. assignColumnAccessor example_heap 1 = Returns h' (HRef 1)
         \<and> read_field h' 1 ''id'' = HStr ''age'')
   \<and> (\<exists>h'. assignColumnAccessor example_heap 0 = Returns h' (HRef 0)
         \<and> read_field h' 0 ''id'' = HStr ''name.first'')
   \<and> (\<exists>h'. assignColumnAccessor example_heap 3 = Returns h' (HRef 3)
         \<and> read_field h' 3 ''id'' = HStr ''Info'')
   \<and> assignColumnAccessor (example_heap @ [HObject [(''Header'', HFn ''() => null'')]]) 5
       = Throws (Error id_required) (example_heap @ [HObject [(''Header'', HFn ''() => null'')]])"
  using column_id_resolution [of 1 example_heap "[(''id'', HStr ''age''), (''accessor'', HFn ''row => row.age'')]"]
        column_id_resolution [of 0 example_heap "[(''Header'', HStr ''First''), (''accessor'', HStr ''name.first'')]"]
        column_id_resolution [of 3 example_heap "[(''Header'', HStr ''Info''), (''columns'', HRef 2)]"]
        column_id_resolution [of 5 "example_heap @ [HObject [(''Header'', HFn ''() => null'')]]"
           "[(''Header'', HFn ''() => null'')]"]
  by (simp add: example_heap_def get_prop_def is_string_def)

text \<open>
  The claim as stated fails for a falsy explicit id and for an empty accessor string:
  \<^verbatim>\<open>{id: '', accessor: 'a'}\<close> is given the id \<^verbatim>\<open>'a'\<close>, not its explicit id, and
  \<^verbatim>\<open>{accessor: ''}\<close>, a column with only a string accessor, throws.
\<close>

theorem column_id_falsy_counterexample:
  "assignColumnAccessor [HObject [(''id'', HStr []), (''accessor'', HStr ''a'')]] 0
     = Returns [HObject [(''id'', HStr ''a''), (''accessor'', HAccessor [''a''])]] (HRef 0)
   \<and> assignColumnAccessor [HObject [(''accessor'', HStr [])]] 0
     = Throws (Error id_required) [HObject [(''accessor'', HStr [])]]"
  by (simp add: link_eval)

lemma example_heap_closed: "closed_heap example_heap"
  by (simp add: closed_heap_def example_heap_def valid_in_def less_Suc_eq eval_nat_numeral)

theorem linkColumnStructure_preserves_input_witness:
  "closed_heap example_heap \<and> valid_in example_heap (HRef 4)
   \<and> nested_within (Suc (Suc 0)) example_heap (HRef 4)
   \<and> (case linkColumnStructure (Suc (Suc (Suc 0))) example_heap (HRef 4) HUndefined 0 of
        Some (Returns hf r) \<Rightarrow>
          take (length example_heap) hf = example_heap
          \<and> linked_array (Suc (Suc (Suc 0))) example_heap hf (HRef 4) r HUndefined 0
          \<and> r = HRef 9 \<and> hf ! 9 = HArray [HRef 5]
          \<and> read_field hf 5 ''id'' = HStr ''Info'' \<and> read_field hf 5 ''columns'' = HRef 8
          \<and> hf ! 8 = HArray [HRef 6, HRef 7]
          \<and> read_field hf 6 ''id'' = HStr ''name.first'' \<and> read_field hf 6 ''parent'' = HRef 5
          \<and> read_field hf 7 ''id'' = HStr ''age'' \<and> read_field hf 7 ''depth'' = HNum 1
      | _ \<Rightarrow> False)"
proof -
  have c: "closed_heap example_heap \<and> valid_in example_heap (HRef 4)"
    by (simp add: example_heap_closed) (simp add: valid_in_def example_heap_def)
  have n: "nested_within (Suc (Suc 0)) example_heap (HRef 4)"
    by (simp add: link_eval)
  obtain hf r where run:
    "linkColumnStructure (Suc (Suc (Suc 0))) example_heap (HRef 4) HUndefined 0 = Some (Returns hf r)"
    and shape: "r = HRef 9 \<and> hf ! 9 = HArray [HRef 5]
          \<and> read_field hf 5 ''id'' = HStr ''Info'' \<and> read_field hf 5 ''columns'' = HRef 8
          \<and> hf ! 8 = HArray [HRef 6, HRef 7]
          \<and> read_field hf 6 ''id'' = HStr ''name.first'' \<and> read_field hf 6 ''parent'' = HRef 5
          \<and> read_field hf 7 ''id'' = HStr ''age'' \<and> read_field hf 7 ''depth'' = HNum 1"
    by (simp add: link_eval)
  from linkColumnStructure_preserves_input
         [of "Suc (Suc (Suc 0))" example_heap "HRef 4" HUndefined 0 "Returns hf r" "Suc (Suc 0)"]
       c n run shape
  show ?thesis by simp
qed

section \<open>Properties of accessRowsForColumn\<close>

lemma then_walk_Some:
  assumes "then_walk x f = Some res"
  shows "(\<exists>e. x = Some (Inl e) \<and> res = Inl e)
         \<or> (\<exists>acc t. x = Some (Inr (acc, t)) \<and> f acc t = Some res)"
proof (cases x)
  case None
  with assms show ?thesis by simp
next
  case (Some y)
  with assms show ?thesis by (cases y) auto
qed

lemma map_of_set_prop: "map_of (set_prop ps k v) = (map_of ps)(k \<mapsto> v)"
  by (induction ps) (auto simp: fun_eq_iff)

lemma assign_value_shape:
  "\<exists>vs. assign_value m originalRow rowIndex row = row\<lparr>obj_values := vs\<rparr>
        \<and> (\<forall>k. k \<noteq> column_id m \<longrightarrow> map_of vs k = map_of (obj_values row) k)"
proof (cases "column_accessor m")
  case None
  show ?thesis
    unfolding assign_value_def Let_def None option.case
    by (intro exI conjI, rule refl) (simp add: map_of_set_prop)
next
  case (Some a)
  let ?row1 = "row\<lparr>obj_values := set_prop (obj_values row) (column_id m) (a originalRow rowIndex row)\<rparr>"
  let ?vs = "set_prop (obj_values ?row1) (column_id m)
               (reduceHooks (accessValueHooks m) (value_of ?row1 (column_id m))
                  \<lparr>meta_row = ?row1, meta_column = column_id m\<rparr>)"
  have "assign_value m originalRow rowIndex row = row\<lparr>obj_values := ?vs\<rparr>"
    by (simp add: assign_value_def Let_def Some)
  moreover have "\<forall>k. k \<noteq> column_id m \<longrightarrow> map_of ?vs k = map_of (obj_values row) k"
    by (simp add: map_of_set_prop)
  ultimately show ?thesis by blast
qed

subsection \<open>unprepared\<close>

lemma unprepared_update_row:
  "unprepared t \<Longrightarrow> (\<And>row. obj_cells (f row) = obj_cells row) \<Longrightarrow> unprepared (update_row t i f)"
  by (auto simp: unprepared_def update_row_def split: if_splits)

lemma obj_cells_assign_value: "obj_cells (assign_value m originalRow rowIndex row) = obj_cells row"
  using assign_value_shape [of m originalRow rowIndex row] by auto

lemma each_row_keeps_unprepared:
  assumes "keeps_unprepared visit"
  shows "unprepared t \<Longrightarrow> each_row visit ds k depth p acc t = Some (Inr (acc', t')) \<Longrightarrow> unprepared t'"
proof (induction ds arbitrary: k acc t)
  case Nil
  then show ?case by simp
next
  case (Cons d ds)
  from Cons.prems(2) have
    "then_walk (visit d k depth p acc t) (\<lambda>a' u. each_row visit ds (Suc k) depth p a' u)
       = Some (Inr (acc', t'))" by simp
  from then_walk_Some [OF this] obtain a1 t1 where
    v: "visit d k depth p acc t = Some (Inr (a1, t1))"
    and r: "each_row visit ds (Suc k) depth p a1 t1 = Some (Inr (acc', t'))" by auto
  from assms Cons.prems(1) v have "unprepared t1" unfolding keeps_unprepared_def by blast
  from Cons.IH [OF this r] show ?case .
qed

lemma finish_row_unprepared:
  "unprepared t \<Longrightarrow> finish_row m originalRow rowIndex i acc t = Some (Inr (acc', t')) \<Longrightarrow> unprepared t'"
  by (auto simp: finish_row_def intro!: unprepared_update_row obj_cells_assign_value)

lemma accessRow_keeps_unprepared: "keeps_unprepared (accessRow fuel m)"
proof (induction fuel)
  case 0
  show ?case by (simp add: keeps_unprepared_def)
next
  case (Suc fuel)
  show ?case
    unfolding keeps_unprepared_def
  proof (intro allI impI)
    fix d k depth p acc t acc' t'
    assume u: "unprepared t"
      and run: "accessRow (Suc fuel) m d k depth p acc t = Some (Inr (acc', t'))"
    define i where "i = getRowId m d k (parent_row t p)"
    show "unprepared t'"
    proof (cases "rowsById t i")
      case None
      show ?thesis
      proof (cases acc)
        case None
        with \<open>rowsById t i = None\<close> run show ?thesis by (simp add: i_def Let_def)
      next
        case (Some siblings)
        define t2 where "t2 = update_row
            (t\<lparr>flatRows := flatRows t @ [i], rowsById := (rowsById t)(i \<mapsto> new_row i d k depth)\<rparr>) i
            (\<lambda>row. row\<lparr>obj_originalSubRows := getSubRows m d k\<rparr>)"
        have u2: "unprepared t2"
          unfolding t2_def
          by (rule unprepared_update_row) (use u in \<open>auto simp: unprepared_def new_row_def\<close>)
        show ?thesis
        proof (cases "getSubRows m d k")
          case None
          with \<open>rowsById t i = None\<close> Some run
          have "finish_row m d k i (Some (siblings @ [i])) t2 = Some (Inr (acc', t'))"
            by (simp add: i_def Let_def t2_def)
          from finish_row_unprepared [OF u2 this] show ?thesis .
        next
          case (Some ds)
          with \<open>rowsById t i = None\<close> \<open>acc = Some siblings\<close> run
          have "then_walk (each_row (accessRow fuel m) ds 0 (depth + 1) (Some i) (Some []) t2)
                  (\<lambda>children t3. finish_row m d k i (Some (siblings @ [i]))
                      (update_row t3 i (\<lambda>row. row\<lparr>obj_subRows := children\<rparr>)))
                = Some (Inr (acc', t'))"
            by (simp add: i_def Let_def t2_def)
          from then_walk_Some [OF this] obtain children t3 where
            e: "each_row (accessRow fuel m) ds 0 (depth + 1) (Some i) (Some []) t2 = Some (Inr (children, t3))"
            and f: "finish_row m d k i (Some (siblings @ [i]))
                      (update_row t3 i (\<lambda>row. row\<lparr>obj_subRows := children\<rparr>)) = Some (Inr (acc', t'))"
            by auto
          from each_row_keeps_unprepared [OF Suc u2 e] have "unprepared t3" .
          then have "unprepared (update_row t3 i (\<lambda>row. row\<lparr>obj_subRows := children\<rparr>))"
            by (rule unprepared_update_row) simp
          from finish_row_unprepared [OF this f] show ?thesis .
        qed
      qed
    next
      case (Some row)
      show ?thesis
      proof (cases "obj_subRows row")
        case None
        with Some run have "finish_row m d k i acc t = Some (Inr (acc', t'))"
          by (simp add: i_def Let_def)
        from finish_row_unprepared [OF u this] show ?thesis .
      next
        case children: (Some children)
        show ?thesis
        proof (cases "obj_originalSubRows row")
          case None
          with Some children run show ?thesis by (simp add: i_def Let_def)
        next
          case ds: (Some ds)
          with Some children run
          have "then_walk (each_row (accessRow fuel m) ds 0 (depth + 1) (Some i) None t)
                  (\<lambda>ignored t3. finish_row m d k i acc t3) = Some (Inr (acc', t'))"
            by (simp add: i_def Let_def)
          from then_walk_Some [OF this] obtain a3 t3 where
            e: "each_row (accessRow fuel m) ds 0 (depth + 1) (Some i) None t = Some (Inr (a3, t3))"
            and f: "finish_row m d k i acc t3 = Some (Inr (acc', t'))" by auto
          from each_row_keeps_unprepared [OF Suc u e] have "unprepared t3" .
          from finish_row_unprepared [OF this f] show ?thesis .
        qed
      qed
    qed
  qed
qed



subsection \<open>only values change\<close>































lemmas accessRows_eval =
  accessRowsForColumn_def example_materializer_def example_materializer2_def example_data_def
  empty_table_def finish_row_def update_row_def assign_value_def new_row_def parent_row_def
  reduceHooks_def value_of_def Let_def string_of_nat_digits bare_env_def


text \<open>
  Claim C5. Every row of the table that \<open>accessRowsForColumn\<close> leaves, starting from a
  table whose rows (if any) are unprepared, still has the dummy cells: calling
  \<^verbatim>\<open>row.cells.map\<close>, \<^verbatim>\<open>row.cells.filter\<close>, \<^verbatim>\<open>row.cells.forEach\<close> or
  \<^verbatim>\<open>row.cells[0].getCellProps\<close> raises the error of \<open>unpreparedAccessWarning\<close>; none
  returns cell data.
\<close>

theorem unprepared_cells_throw:
  assumes "unprepared t"
    and "accessRowsForColumn fuel m data rows t = Some (Inr (rows', t'))"
    and "rowsById t' i = Some row"
  shows "cells_map row = Inl (Error unprepared_message)
         \<and> cells_filter row = Inl (Error unprepared_message)
         \<and> cells_forEach row = Inl (Error unprepared_message)
         \<and> cells_0_getCellProps row = Inl (Error unprepared_message)"
proof -
  from each_row_keeps_unprepared [OF accessRow_keeps_unprepared assms(1)
         assms(2) [unfolded accessRowsForColumn_def]]
  have "unprepared t'" .
  with assms(3) have "obj_cells row = dummy_cells" by (simp add: unprepared_def)
  then show ?thesis
    by (simp add: cells_map_def cells_filter_def cells_forEach_def cells_0_getCellProps_def
          dummy_cells_def call_slot_def unpreparedAccessWarning_def)
qed

theorem unprepared_cells_throw_witness:
  "\<exists>rows t row.
     accessRowsForColumn (Suc (Suc 0)) example_materializer example_data [] empty_table
       = Some (Inr (rows, t))
     \<and> rowsById t ''0.0'' = Some row
     \<and> cells_map row = Inl (Error unprepared_message)
     \<and> cells_filter row = Inl (Error unprepared_message)
     \<and> cells_forEach row = Inl (Error unprepared_message)
     \<and> cells_0_getCellProps row = Inl (Error unprepared_message)"
proof -
  have u: "unprepared empty_table" by (simp add: unprepared_def empty_table_def)
  have "\<exists>rows t row.
     accessRowsForColumn (Suc (Suc 0)) example_materializer example_data [] empty_table
       = Some (Inr (rows, t)) \<and> rowsById t ''0.0'' = Some row"
    by (simp add: accessRows_eval)
  then obtain rows t row where
    p: "accessRowsForColumn (Suc (Suc 0)) example_materializer example_data [] empty_table
           = Some (Inr (rows, t))"
    and q: "rowsById t ''0.0'' = Some row"
    by blast
  from unprepared_cells_throw [OF u p q] p q show ?thesis by blast
qed





end
